theory Spec2Isabelle
  imports Main "HOL-Library.Word"
begin

unbundle bit_operations_syntax

section \<open>The name table of UnrealNames.cpp\<close>

text \<open>
  A shallow embedding of the string interning core of
  \<^verbatim>\<open>Engine/Source/Runtime/Core/Private/UObject/UnrealNames.cpp\<close>: the entry
  allocator, the slots and shards of the hash index, the pool (\<open>Store\<close>, \<open>Find\<close>),
  the construction of an \<open>FName\<close> from text (\<open>ParseNumber\<close>, \<open>MakeDetectNumber\<close>,
  \<open>MakeWithNumber\<close>, \<open>Make\<close>), the loading operator of \<open>FNameEntrySerialized\<close> and
  the batch serialization (\<open>SaveNameBatch\<close>, \<open>LoadNameBatch\<close>).

  The model is sequential: the locks of the source are not modelled.
  A \<open>check\<close> that fails aborts the process; the model returns \<open>Inl CheckFailed\<close>.
  A probe loop that never leaves, and a read of an entry that was never allocated
  (undefined in the source), is \<open>Inl NoReturn\<close>.
\<close>

subsection \<open>Machine types, the build configuration\<close>

type_synonym uint8 = "8 word"
type_synonym uint16 = "16 word"
type_synonym uint32 = "32 word"
type_synonym uint64 = "64 word"
type_synonym ANSICHAR = "8 word"
type_synonym WIDECHAR = "16 word"

datatype error = CheckFailed | NoReturn

definition rbind :: "error + 'a \<Rightarrow> ('a \<Rightarrow> error + 'b) \<Rightarrow> error + 'b" where
  "rbind m f = (case m of Inl e \<Rightarrow> Inl e | Inr x \<Rightarrow> f x)"

text \<open>
  What the file takes from headers that are not part of the sources at hand is a
  parameter of the model: the preprocessor switch \<open>WITH_CASE_PRESERVING_NAME\<close>, the
  hash function \<open>CityHash64\<close> (Hash/CityHash.h), the alignment of \<open>FNameEntry\<close>
  (\<open>Stride\<close>), the offset of the characters in an entry (\<open>GetDataOffset\<close>), the
  constant \<open>NAME_SIZE\<close> and the width \<open>FNameEntryHeader::ProbeHashBits\<close>.
  \<open>WIDECHAR\<close> is taken to be 16 bits wide and the platform little-endian (the file
  asserts \<open>PLATFORM_LITTLE_ENDIAN\<close> for its serialization).
\<close>

record config =
  WITH_CASE_PRESERVING_NAME :: bool
  CityHash64 :: "uint8 list \<Rightarrow> uint64"
  Stride :: nat
  DataOffset :: nat
  NAME_SIZE :: nat
  ProbeHashBits :: nat

definition FNameMaxBlockBits :: nat where "FNameMaxBlockBits = 13"
definition FNameBlockOffsetBits :: nat where "FNameBlockOffsetBits = 16"
definition FNameMaxBlocks :: nat where "FNameMaxBlocks = 2 ^ FNameMaxBlockBits"
definition FNameBlockOffsets :: nat where "FNameBlockOffsets = 2 ^ FNameBlockOffsetBits"

definition FNamePoolShardBits :: "config \<Rightarrow> nat" where
  "FNamePoolShardBits cfg = (if WITH_CASE_PRESERVING_NAME cfg then 10 else 4)"
definition FNamePoolShards :: "config \<Rightarrow> nat" where
  "FNamePoolShards cfg = 2 ^ FNamePoolShardBits cfg"
definition FNamePoolInitialSlotBits :: nat where "FNamePoolInitialSlotBits = 8"
definition FNamePoolInitialSlotsPerShard :: nat where
  "FNamePoolInitialSlotsPerShard = 2 ^ FNamePoolInitialSlotBits"

text \<open>\<open>uint32\<close> arithmetic on counters kept as natural numbers.\<close>
definition u32 :: "nat \<Rightarrow> nat" where
  "u32 n = n mod 2 ^ 32"

subsection \<open>String views\<close>

text \<open>
  \<open>FNameStringView\<close>: a pointer, a length and a width flag. The model holds the
  \<open>Len\<close> characters the view points to; the union of the two pointer types is the
  choice of the constructor.
\<close>

datatype FNameStringView = AnsiView "ANSICHAR list" | WideView "WIDECHAR list"

fun ViewLen :: "FNameStringView \<Rightarrow> nat" where
  "ViewLen (AnsiView s) = length s"
| "ViewLen (WideView s) = length s"

fun ViewIsWide :: "FNameStringView \<Rightarrow> bool" where
  "ViewIsWide (AnsiView s) = False"
| "ViewIsWide (WideView s) = True"

definition IsAnsi :: "FNameStringView \<Rightarrow> bool" where
  "IsAnsi v = (\<not> ViewIsWide v)"

definition BytesWithoutTerminator :: "FNameStringView \<Rightarrow> nat" where
  "BytesWithoutTerminator v = ViewLen v * (if ViewIsWide v then 2 else 1)"

text \<open>
  Modelled from the spec: \<open>TChar<CharType>::ToLower\<close>, \<open>FPlatformString::Strncmp\<close>
  and \<open>FPlatformString::Strnicmp\<close> are declared in headers that are not among the
  sources. Section 4.2 of the specification: comparison of two entries of the same
  encoded width is a flat byte compare (case-sensitive) or an ASCII-range
  case-folding compare (case-insensitive).
\<close>

definition ToLower :: "'a::len word \<Rightarrow> 'a word" where
  "ToLower c = (if 0x41 \<le> unat c \<and> unat c \<le> 0x5A then c + 0x20 else c)"

definition Strncmp_eq :: "'a::len word list \<Rightarrow> 'a word list \<Rightarrow> bool" where
  "Strncmp_eq a b = (a = b)"

definition Strnicmp_eq :: "'a::len word list \<Rightarrow> 'a word list \<Rightarrow> bool" where
  "Strnicmp_eq a b = (map ToLower a = map ToLower b)"

datatype ENameCase = CaseSensitive | IgnoreCase

text \<open>
  \<open>EqualsSameDimensions\<close> on two views. Its \<open>checkSlow\<close> asks for equal length and
  width; the source reads both unions through the width of \<open>B\<close>, which the model
  answers with \<open>False\<close> when the widths differ (the callers compare the headers
  first).
\<close>

fun EqualsSameDimensions :: "ENameCase \<Rightarrow> FNameStringView \<Rightarrow> FNameStringView \<Rightarrow> bool" where
  "EqualsSameDimensions CaseSensitive (AnsiView a) (AnsiView b) = Strncmp_eq a b"
| "EqualsSameDimensions CaseSensitive (WideView a) (WideView b) = Strncmp_eq a b"
| "EqualsSameDimensions IgnoreCase (AnsiView a) (AnsiView b) = Strnicmp_eq a b"
| "EqualsSameDimensions IgnoreCase (WideView a) (WideView b) = Strnicmp_eq a b"
| "EqualsSameDimensions s a b = False"

subsection \<open>Entry identifiers, handles and slots\<close>

type_synonym FNameEntryId = uint32

record FNameEntryHandle =
  Block :: uint32
  Offset :: uint32

definition Handle_of_Id :: "FNameEntryId \<Rightarrow> FNameEntryHandle" where
  "Handle_of_Id EntryId = \<lparr>Block = drop_bit FNameBlockOffsetBits EntryId,
                      Offset = EntryId AND (of_nat FNameBlockOffsets - 1)\<rparr>"

definition Id_of_Handle :: "FNameEntryHandle \<Rightarrow> FNameEntryId" where
  "Id_of_Handle h = push_bit FNameBlockOffsetBits (Block h) OR Offset h"

type_synonym FNameSlot = uint32

definition EntryIdBits :: nat where
  "EntryIdBits = FNameMaxBlockBits + FNameBlockOffsetBits"
definition EntryIdMask :: uint32 where
  "EntryIdMask = push_bit EntryIdBits 1 - 1"
definition ProbeHashShift :: nat where
  "ProbeHashShift = EntryIdBits"
definition ProbeHashMask :: uint32 where
  "ProbeHashMask = NOT EntryIdMask"

definition Used :: "FNameSlot \<Rightarrow> bool" where
  "Used IdAndHash = (IdAndHash \<noteq> 0)"

definition GetId :: "FNameSlot \<Rightarrow> FNameEntryId" where
  "GetId IdAndHash = IdAndHash AND EntryIdMask"

definition GetProbeHash :: "FNameSlot \<Rightarrow> uint32" where
  "GetProbeHash IdAndHash = IdAndHash AND ProbeHashMask"

text \<open>The constructor \<open>FNameSlot(Value, ProbeHash)\<close> with its \<open>check\<close>.\<close>
definition FNameSlot_make :: "FNameEntryId \<Rightarrow> uint32 \<Rightarrow> error + FNameSlot" where
  "FNameSlot_make Value ProbeHash =
     (let IdAndHash = Value OR ProbeHash in
      if Value AND ProbeHashMask = 0 \<and> ProbeHash AND EntryIdMask = 0 \<and> Used IdAndHash
      then Inr IdAndHash else Inl CheckFailed)"

subsection \<open>Entries and the entry allocator\<close>

text \<open>
  Modelled from the spec: the bit-field \<open>FNameEntryHeader\<close> is declared in
  NameTypes.h, which is not among the sources. Section 4.2: each entry stores a
  header (string length, the is-wide flag, and a small embedded hash fragment for
  the case-insensitive lookups). The model keeps the length as a natural number.
\<close>

record FNameEntryHeader =
  bIsWide :: bool
  LowercaseProbeHash :: uint16
  Len :: nat

text \<open>
  An entry: the comparison identifier (a field of the case preserving build only;
  the other build leaves it 0 in the model), the header, and the union of the two
  character arrays.
\<close>

record FNameEntry =
  ComparisonId :: FNameEntryId
  Header :: FNameEntryHeader
  AnsiName :: "ANSICHAR list"
  WideName :: "WIDECHAR list"

definition IsWide :: "FNameEntry \<Rightarrow> bool" where
  "IsWide e = bIsWide (Header e)"

definition GetNameLength :: "FNameEntry \<Rightarrow> nat" where
  "GetNameLength e = Len (Header e)"

definition MakeView :: "FNameEntry \<Rightarrow> FNameStringView" where
  "MakeView e = (if IsWide e then WideView (take (GetNameLength e) (WideName e))
                 else AnsiView (take (GetNameLength e) (AnsiName e)))"

fun StoreName :: "FNameStringView \<Rightarrow> FNameEntry \<Rightarrow> FNameEntry" where
  "StoreName (AnsiView s) e = e\<lparr>AnsiName := s\<rparr>"
| "StoreName (WideView s) e = e\<lparr>WideName := s\<rparr>"

text \<open>
  The allocator: the current block, the byte cursor in it, and the memory of the
  blocks, read at a handle (\<open>Blocks[Handle.Block] + Stride * Handle.Offset\<close>).
\<close>

record FNameEntryAllocator =
  CurrentBlock :: nat
  CurrentByteCursor :: nat
  Blocks :: "uint32 \<times> uint32 \<Rightarrow> FNameEntry option"

definition BlockSizeBytes :: "config \<Rightarrow> nat" where
  "BlockSizeBytes cfg = Stride cfg * FNameBlockOffsets"

text \<open>\<open>Align(Bytes, Alignment)\<close> of AlignmentTemplates.h: the next multiple.\<close>
definition Align :: "nat \<Rightarrow> nat \<Rightarrow> nat" where
  "Align Bytes a = ((Bytes + a - 1) div a) * a"

definition AllocateNewBlock :: "FNameEntryAllocator \<Rightarrow> error + FNameEntryAllocator" where
  "AllocateNewBlock A =
     (let A1 = A\<lparr>CurrentBlock := u32 (CurrentBlock A + 1), CurrentByteCursor := 0\<rparr> in
      if CurrentBlock A1 < FNameMaxBlocks then Inr A1 else Inl CheckFailed)"

definition Allocate :: "config \<Rightarrow> nat \<Rightarrow> FNameEntryAllocator
    \<Rightarrow> error + (FNameEntryHandle \<times> FNameEntryAllocator)" where
  "Allocate cfg Bytes0 A =
     (let Bytes = Align Bytes0 (Stride cfg) in
      if \<not> Bytes \<le> BlockSizeBytes cfg then Inl CheckFailed
      else rbind (if u32 (BlockSizeBytes cfg + 2 ^ 32 - CurrentByteCursor A) < Bytes
                  then AllocateNewBlock A else Inr A)
        (\<lambda>A1.
          let ByteOffset = CurrentByteCursor A1;
              A2 = A1\<lparr>CurrentByteCursor := u32 (ByteOffset + Bytes)\<rparr> in
          if ByteOffset mod Stride cfg = 0 \<and> ByteOffset div Stride cfg < FNameBlockOffsets
          then Inr (\<lparr>Block = of_nat (CurrentBlock A2),
                      Offset = of_nat (ByteOffset div Stride cfg)\<rparr>, A2)
          else Inl CheckFailed))"

definition Resolve :: "FNameEntryAllocator \<Rightarrow> FNameEntryHandle \<Rightarrow> FNameEntry option" where
  "Resolve A h = Blocks A (Block h, Offset h)"

definition Create :: "config \<Rightarrow> FNameStringView \<Rightarrow> FNameEntryId option \<Rightarrow> FNameEntryHeader
    \<Rightarrow> FNameEntryAllocator \<Rightarrow> error + (FNameEntryHandle \<times> FNameEntryAllocator)" where
  "Create cfg Name CompId Hdr A =
     rbind (Allocate cfg (DataOffset cfg + BytesWithoutTerminator Name) A)
       (\<lambda>(Handle, A1).
          let Entry = StoreName Name
                \<lparr>ComparisonId =
                   (if WITH_CASE_PRESERVING_NAME cfg
                    then (case CompId of Some c \<Rightarrow> c | None \<Rightarrow> Id_of_Handle Handle)
                    else 0),
                 Header = Hdr, AnsiName = [], WideName = []\<rparr>
          in Inr (Handle, A1\<lparr>Blocks := (Blocks A1)((Block Handle, Offset Handle) \<mapsto> Entry)\<rparr>))"

subsection \<open>Hashing\<close>

record FNameHash =
  ShardIndex :: uint32
  UnmaskedSlotIndex :: uint32
  SlotProbeHash :: uint32
  EntryProbeHeader :: FNameEntryHeader

definition AlgorithmId :: uint64 where
  "AlgorithmId = 0xC1640000"

definition WideBytes :: "WIDECHAR \<Rightarrow> uint8 list" where
  "WideBytes c = [ucast c, ucast (drop_bit 8 c)]"

fun ViewBytes :: "FNameStringView \<Rightarrow> uint8 list" where
  "ViewBytes (AnsiView s) = s"
| "ViewBytes (WideView s) = concat (map WideBytes s)"

definition GenerateHash :: "config \<Rightarrow> FNameStringView \<Rightarrow> uint64" where
  "GenerateHash cfg Str = CityHash64 cfg (ViewBytes Str)"

fun LowerView :: "FNameStringView \<Rightarrow> FNameStringView" where
  "LowerView (AnsiView s) = AnsiView (map ToLower s)"
| "LowerView (WideView s) = WideView (map ToLower s)"

definition GenerateLowerCaseHash :: "config \<Rightarrow> FNameStringView \<Rightarrow> uint64" where
  "GenerateLowerCaseHash cfg Str = GenerateHash cfg (LowerView Str)"

fun IsAnsiNone :: "FNameStringView \<Rightarrow> uint32" where
  "IsAnsiNone (WideView s) = 0"
| "IsAnsiNone (AnsiView s) =
     (if length s \<noteq> 4 then 0
      else let FourChars = (ucast (s ! 0) OR push_bit 8 (ucast (s ! 1))
                  OR push_bit 16 (ucast (s ! 2)) OR push_bit 24 (ucast (s ! 3)) :: uint32)
           in if FourChars AND 0xdfdfdfdf = 0x454e4f4e then 1 else 0)"

text \<open>The constructor \<open>FNameHash(Str, Len, Hash)\<close>.\<close>
definition FNameHash_make :: "config \<Rightarrow> FNameStringView \<Rightarrow> uint64 \<Rightarrow> FNameHash" where
  "FNameHash_make cfg Str Hash =
     (let Hi = (ucast (drop_bit 32 Hash) :: uint32);
          Lo = (ucast Hash :: uint32);
          IsNoneBit = push_bit ProbeHashShift (IsAnsiNone Str);
          ShardMask = (of_nat (FNamePoolShards cfg) - 1 :: uint32)
      in \<lparr>ShardIndex = Hi AND ShardMask,
          UnmaskedSlotIndex = Lo,
          SlotProbeHash = (Hi AND ProbeHashMask) OR IsNoneBit,
          EntryProbeHeader =
            \<lparr>bIsWide = ViewIsWide Str,
             LowercaseProbeHash =
               (if WITH_CASE_PRESERVING_NAME cfg then 0
                else ucast (drop_bit (FNamePoolShardBits cfg) Hi
                              AND (push_bit (ProbeHashBits cfg) 1 - 1))),
             Len = ViewLen Str\<rparr>\<rparr>)"

text \<open>\<open>FNameHash(Str, Len)\<close> and \<open>HashLowerCase\<close>.\<close>
definition FNameHash_of :: "config \<Rightarrow> FNameStringView \<Rightarrow> FNameHash" where
  "FNameHash_of cfg Str = FNameHash_make cfg Str (GenerateHash cfg Str)"

definition HashLowerCase :: "config \<Rightarrow> FNameStringView \<Rightarrow> FNameHash" where
  "HashLowerCase cfg Str = FNameHash_of cfg (LowerView Str)"

fun HashName :: "config \<Rightarrow> ENameCase \<Rightarrow> FNameStringView \<Rightarrow> FNameHash" where
  "HashName cfg IgnoreCase Name = HashLowerCase cfg Name"
| "HashName cfg CaseSensitive Name = FNameHash_of cfg Name"

definition GetProbeStart :: "uint32 \<Rightarrow> nat \<Rightarrow> nat" where
  "GetProbeStart Unmasked SlotMask = unat Unmasked AND SlotMask"

record FNameValue =
  Name :: FNameStringView
  Hash :: FNameHash
  ValueComparisonId :: "FNameEntryId option"

definition FNameValue_of :: "config \<Rightarrow> ENameCase \<Rightarrow> FNameStringView \<Rightarrow> FNameValue" where
  "FNameValue_of cfg Sensitivity InName =
     \<lparr>Name = InName, Hash = HashName cfg Sensitivity InName, ValueComparisonId = None\<rparr>"


subsection \<open>Shards: probing, insertion, growth\<close>

record FNamePoolShard =
  UsedSlots :: nat
  CapacityMask :: nat
  Slots :: "FNameSlot list"
  NumCreatedEntries :: nat
  NumCreatedWideEntries :: nat

definition LoadFactorQuotient :: nat where "LoadFactorQuotient = 9"
definition LoadFactorDivisor :: nat where "LoadFactorDivisor = 10"

definition Shard_Initialize :: FNamePoolShard where
  "Shard_Initialize =
     \<lparr>UsedSlots = 0, CapacityMask = FNamePoolInitialSlotsPerShard - 1,
      Slots = replicate FNamePoolInitialSlotsPerShard 0,
      NumCreatedEntries = 0, NumCreatedWideEntries = 0\<rparr>"

definition Capacity :: "FNamePoolShard \<Rightarrow> nat" where
  "Capacity S = u32 (CapacityMask S + 1)"

text \<open>
  \<open>Probe(UnmaskedSlotIndex, Predicate)\<close>: the loop
  \<^verbatim>\<open>for (I = start; true; I = (I + 1) & Mask)\<close> returns the index of the first slot
  that is unused or fulfills the predicate. It has no other exit, so it is a partial
  function: \<open>None\<close> when it does not return. A predicate that reads an entry which
  was never allocated gives \<open>None\<close> as well.
\<close>

partial_function (option) ProbeLoop ::
    "FNameSlot list \<Rightarrow> nat \<Rightarrow> (FNameSlot \<Rightarrow> bool option) \<Rightarrow> nat \<Rightarrow> nat option" where
  "ProbeLoop SlotArr Mask Predicate I =
     (if I < length SlotArr
      then (let Slot = SlotArr ! I in
            if \<not> Used Slot then Some I
            else (case Predicate Slot of
                    None \<Rightarrow> None
                  | Some b \<Rightarrow> if b then Some I
                              else ProbeLoop SlotArr Mask Predicate (u32 (I + 1) AND Mask)))
      else None)"

declare ProbeLoop.simps [code]

definition Probe :: "FNamePoolShard \<Rightarrow> uint32 \<Rightarrow> (FNameSlot \<Rightarrow> bool option) \<Rightarrow> nat option" where
  "Probe S Unmasked Predicate =
     ProbeLoop (Slots S) (CapacityMask S) Predicate (GetProbeStart Unmasked (CapacityMask S))"

definition EntryEqualsValue :: "ENameCase \<Rightarrow> FNameEntry \<Rightarrow> FNameValue \<Rightarrow> bool" where
  "EntryEqualsValue Sensitivity Entry Value =
     (Header Entry = EntryProbeHeader (Hash Value)
      \<and> EqualsSameDimensions Sensitivity (MakeView Entry) (Name Value))"

text \<open>The predicate of \<open>Probe(Value)\<close>; the entry is read only when the probe hashes agree.\<close>
definition ValuePredicate ::
    "ENameCase \<Rightarrow> FNameEntryAllocator \<Rightarrow> FNameValue \<Rightarrow> FNameSlot \<Rightarrow> bool option" where
  "ValuePredicate Sensitivity A Value Slot =
     (if GetProbeHash Slot = SlotProbeHash (Hash Value)
      then (case Resolve A (Handle_of_Id (GetId Slot)) of
              None \<Rightarrow> None
            | Some Entry \<Rightarrow> Some (EntryEqualsValue Sensitivity Entry Value))
      else Some False)"

definition ProbeValue ::
    "ENameCase \<Rightarrow> FNameEntryAllocator \<Rightarrow> FNamePoolShard \<Rightarrow> FNameValue \<Rightarrow> nat option" where
  "ProbeValue Sensitivity A S Value =
     Probe S (UnmaskedSlotIndex (Hash Value)) (ValuePredicate Sensitivity A Value)"

definition Shard_Find ::
    "ENameCase \<Rightarrow> FNameEntryAllocator \<Rightarrow> FNamePoolShard \<Rightarrow> FNameValue \<Rightarrow> error + FNameEntryId" where
  "Shard_Find Sensitivity A S Value =
     (case ProbeValue Sensitivity A S Value of
        None \<Rightarrow> Inl NoReturn
      | Some I \<Rightarrow> Inr (GetId (Slots S ! I)))"

definition Rehash :: "config \<Rightarrow> ENameCase \<Rightarrow> FNameEntryAllocator \<Rightarrow> FNameEntryId \<Rightarrow> error + FNameHash" where
  "Rehash cfg Sensitivity A EntryId =
     (case Resolve A (Handle_of_Id EntryId) of
        None \<Rightarrow> Inl NoReturn
      | Some Entry \<Rightarrow> Inr (HashName cfg Sensitivity (MakeView Entry)))"

text \<open>The loop of \<open>Grow\<close> over the old slots; the shard holds the new, larger array.\<close>
fun GrowLoop :: "config \<Rightarrow> ENameCase \<Rightarrow> FNameEntryAllocator \<Rightarrow> FNameSlot list
    \<Rightarrow> FNamePoolShard \<Rightarrow> error + FNamePoolShard" where
  "GrowLoop cfg Sensitivity A [] S = Inr S"
| "GrowLoop cfg Sensitivity A (OldSlot # Rest) S =
     (if Used OldSlot
      then (case Rehash cfg Sensitivity A (GetId OldSlot) of
              Inl e \<Rightarrow> Inl e
            | Inr H \<Rightarrow>
               (case Probe S (UnmaskedSlotIndex H) (\<lambda>Slot. Some False) of
                  None \<Rightarrow> Inl NoReturn
                | Some J \<Rightarrow>
                    GrowLoop cfg Sensitivity A Rest
                      (S\<lparr>Slots := (Slots S)[J := OldSlot], UsedSlots := u32 (UsedSlots S + 1)\<rparr>)))
      else GrowLoop cfg Sensitivity A Rest S)"

text \<open>\<open>Grow(NewCapacity)\<close>; the old array has \<open>Capacity()\<close> slots.\<close>
definition GrowTo :: "config \<Rightarrow> ENameCase \<Rightarrow> FNameEntryAllocator \<Rightarrow> nat
    \<Rightarrow> FNamePoolShard \<Rightarrow> error + FNamePoolShard" where
  "GrowTo cfg Sensitivity A NewCapacity S =
     (let OldSlots = Slots S;
          OldUsedSlots = UsedSlots S;
          OldCapacity = Capacity S;
          S0 = S\<lparr>Slots := replicate NewCapacity 0, UsedSlots := 0,
                 CapacityMask := u32 (NewCapacity + 2 ^ 32 - 1)\<rparr>
      in rbind (GrowLoop cfg Sensitivity A (take OldCapacity OldSlots) S0)
           (\<lambda>S1. if OldUsedSlots = UsedSlots S1 then Inr S1 else Inl CheckFailed))"

definition Grow :: "config \<Rightarrow> ENameCase \<Rightarrow> FNameEntryAllocator
    \<Rightarrow> FNamePoolShard \<Rightarrow> error + FNamePoolShard" where
  "Grow cfg Sensitivity A S = GrowTo cfg Sensitivity A (u32 (Capacity S * 2)) S"

definition ClaimSlot :: "config \<Rightarrow> ENameCase \<Rightarrow> FNameEntryAllocator \<Rightarrow> nat \<Rightarrow> FNameSlot
    \<Rightarrow> FNamePoolShard \<Rightarrow> error + FNamePoolShard" where
  "ClaimSlot cfg Sensitivity A UnusedSlot NewValue S =
     (let S1 = S\<lparr>Slots := (Slots S)[UnusedSlot := NewValue],
                 UsedSlots := u32 (UsedSlots S + 1)\<rparr>
      in if u32 (UsedSlots S1 * LoadFactorDivisor) \<ge> u32 (LoadFactorQuotient * Capacity S1)
         then Grow cfg Sensitivity A S1 else Inr S1)"

text \<open>
  \<open>Insert\<close>: the identifier, whether a new entry was created, the allocator and the
  shard afterwards.
\<close>
definition Shard_Insert :: "config \<Rightarrow> ENameCase \<Rightarrow> FNameValue \<Rightarrow> FNameEntryAllocator
    \<Rightarrow> FNamePoolShard
    \<Rightarrow> error + (FNameEntryId \<times> bool \<times> FNameEntryAllocator \<times> FNamePoolShard)" where
  "Shard_Insert cfg Sensitivity Value A S =
     (case ProbeValue Sensitivity A S Value of
        None \<Rightarrow> Inl NoReturn
      | Some I \<Rightarrow>
          if Used (Slots S ! I) then Inr (GetId (Slots S ! I), False, A, S)
          else rbind (Create cfg (Name Value) (ValueComparisonId Value)
                        (EntryProbeHeader (Hash Value)) A)
            (\<lambda>(Handle, A1).
               let NewEntryId = Id_of_Handle Handle in
               rbind (FNameSlot_make NewEntryId (SlotProbeHash (Hash Value)))
                 (\<lambda>NewSlot.
                    rbind (ClaimSlot cfg Sensitivity A1 I NewSlot S)
                      (\<lambda>S1. Inr (NewEntryId, True, A1,
                          S1\<lparr>NumCreatedEntries := u32 (NumCreatedEntries S1 + 1),
                             NumCreatedWideEntries :=
                               u32 (NumCreatedWideEntries S1
                                    + (if ViewIsWide (Name Value) then 1 else 0))\<rparr>)))))"

definition InsertExistingEntry :: "config \<Rightarrow> ENameCase \<Rightarrow> FNameEntryAllocator \<Rightarrow> FNameHash
    \<Rightarrow> FNameEntryId \<Rightarrow> FNamePoolShard \<Rightarrow> error + FNamePoolShard" where
  "InsertExistingEntry cfg Sensitivity A H ExistingId S =
     rbind (FNameSlot_make ExistingId (SlotProbeHash H))
       (\<lambda>NewLookup.
          case Probe S (UnmaskedSlotIndex H) (\<lambda>Old. Some (Old = NewLookup)) of
            None \<Rightarrow> Inl NoReturn
          | Some I \<Rightarrow>
              if \<not> Used (Slots S ! I) then ClaimSlot cfg Sensitivity A I NewLookup S
              else Inr S)"

subsection \<open>The pool\<close>

record FNamePool =
  Entries :: FNameEntryAllocator
  DisplayShards :: "nat \<Rightarrow> FNamePoolShard"
  ComparisonShards :: "nat \<Rightarrow> FNamePoolShard"

text \<open>The pool after the shards are initialized, before a name is registered.\<close>
definition FNamePool_Initialize :: FNamePool where
  "FNamePool_Initialize =
     \<lparr>Entries = \<lparr>CurrentBlock = 0, CurrentByteCursor = 0, Blocks = Map.empty\<rparr>,
      DisplayShards = (\<lambda>Index. Shard_Initialize),
      ComparisonShards = (\<lambda>Index. Shard_Initialize)\<rparr>"

definition Pool_Find :: "config \<Rightarrow> FNamePool \<Rightarrow> FNameStringView \<Rightarrow> error + FNameEntryId" where
  "Pool_Find cfg P View =
     (let ComparisonValue = FNameValue_of cfg IgnoreCase View;
          FindComparison =
            Shard_Find IgnoreCase (Entries P)
              (ComparisonShards P (unat (ShardIndex (Hash ComparisonValue)))) ComparisonValue
      in if WITH_CASE_PRESERVING_NAME cfg
         then (let DisplayValue = FNameValue_of cfg CaseSensitive View in
               rbind (Shard_Find CaseSensitive (Entries P)
                        (DisplayShards P (unat (ShardIndex (Hash DisplayValue)))) DisplayValue)
                 (\<lambda>Existing. if Existing \<noteq> 0 then Inr Existing else FindComparison))
         else FindComparison)"

text \<open>The part of \<open>Store\<close> after the display shard was probed without a result.\<close>
definition Store_Insert :: "config \<Rightarrow> FNamePool \<Rightarrow> FNameStringView
    \<Rightarrow> error + (FNameEntryId \<times> FNamePool)" where
  "Store_Insert cfg P View =
     (let ComparisonValue = FNameValue_of cfg IgnoreCase View;
          CI = unat (ShardIndex (Hash ComparisonValue))
      in rbind (Shard_Insert cfg IgnoreCase ComparisonValue (Entries P) (ComparisonShards P CI))
        (\<lambda>(CompId, bAdded, A1, CS1).
           let P1 = P\<lparr>Entries := A1, ComparisonShards := (ComparisonShards P)(CI := CS1)\<rparr> in
           if \<not> WITH_CASE_PRESERVING_NAME cfg then Inr (CompId, P1)
           else
             let DisplayValue = FNameValue_of cfg CaseSensitive View;
                 DI = unat (ShardIndex (Hash DisplayValue))
             in case (if bAdded then Some True
                      else map_option (\<lambda>CompEntry.
                             EqualsSameDimensions CaseSensitive (MakeView CompEntry) View)
                             (Resolve A1 (Handle_of_Id CompId))) of
                  None \<Rightarrow> Inl NoReturn
                | Some bUseComparisonId \<Rightarrow>
                    if bUseComparisonId
                    then rbind (InsertExistingEntry cfg CaseSensitive A1 (Hash DisplayValue)
                                  CompId (DisplayShards P1 DI))
                           (\<lambda>DS1. Inr (CompId, P1\<lparr>DisplayShards := (DisplayShards P1)(DI := DS1)\<rparr>))
                    else rbind (Shard_Insert cfg CaseSensitive
                                  (DisplayValue\<lparr>ValueComparisonId := Some CompId\<rparr>)
                                  A1 (DisplayShards P1 DI))
                           (\<lambda>(DispId, bAdded2, A2, DS1).
                              Inr (DispId, P1\<lparr>Entries := A2,
                                     DisplayShards := (DisplayShards P1)(DI := DS1)\<rparr>))))"

definition Store :: "config \<Rightarrow> FNamePool \<Rightarrow> FNameStringView
    \<Rightarrow> error + (FNameEntryId \<times> FNamePool)" where
  "Store cfg P View =
     (if WITH_CASE_PRESERVING_NAME cfg
      then (let DisplayValue = FNameValue_of cfg CaseSensitive View in
            rbind (Shard_Find CaseSensitive (Entries P)
                     (DisplayShards P (unat (ShardIndex (Hash DisplayValue)))) DisplayValue)
              (\<lambda>Existing. if Existing \<noteq> 0 then Inr (Existing, P) else Store_Insert cfg P View))
      else Store_Insert cfg P View)"


subsection \<open>Names: construction from text\<close>

text \<open>
  Modelled from the spec: the class \<open>FName\<close>, the macros \<open>NAME_NO_NUMBER_INTERNAL\<close>
  and \<open>NAME_EXTERNAL_TO_INTERNAL\<close> and the constant \<open>MAX_int32\<close> are declared in
  headers that are not among the sources. Section 3: a handle is
  \<open>{comparison_id, display_id, number}\<close>; external number 0 maps to internal value
  1, internal 0 is reserved to mean "no number". Section 4.5: two handles are equal
  iff the comparison identifiers are equal and the numeric suffixes are equal.
\<close>

record FName =
  ComparisonIndex :: FNameEntryId
  DisplayIndex :: FNameEntryId
  Number :: uint32

definition NAME_NO_NUMBER_INTERNAL :: uint32 where
  "NAME_NO_NUMBER_INTERNAL = 0"

definition NAME_EXTERNAL_TO_INTERNAL :: "'a::len word \<Rightarrow> 'a word" where
  "NAME_EXTERNAL_TO_INTERNAL x = x + 1"

definition MAX_int32 :: int where
  "MAX_int32 = 2147483647"

definition MIN_int32 :: int where
  "MIN_int32 = - 2147483648"

text \<open>The default constructor \<open>FName()\<close>: the name None without a number.\<close>
definition FName_None :: FName where
  "FName_None = \<lparr>ComparisonIndex = 0, DisplayIndex = 0, Number = NAME_NO_NUMBER_INTERNAL\<rparr>"

definition FName_eq :: "FName \<Rightarrow> FName \<Rightarrow> bool" where
  "FName_eq a b = (ComparisonIndex a = ComparisonIndex b \<and> Number a = Number b)"

datatype EFindName = FNAME_Find | FNAME_Add | FNAME_Replace_Not_Safe_For_Threading

text \<open>
  The views of \<open>FNameHelper\<close>: a buffer and the length to read from it. \<open>FNameStringView(View.Str, View.Len)\<close>
  reads the first \<open>Len\<close> characters of the buffer.
\<close>

record FNameAnsiStringView =
  AnsiStr :: "ANSICHAR list"
  AnsiLen :: nat

record FWideStringViewWithWidth =
  WideStr :: "WIDECHAR list"
  WideLen :: nat
  WidebIsWide :: bool

datatype ViewType = AnsiText FNameAnsiStringView | WideText FWideStringViewWithWidth

fun TextLen :: "ViewType \<Rightarrow> nat" where
  "TextLen (AnsiText v) = AnsiLen v"
| "TextLen (WideText v) = WideLen v"

text \<open>
  A null-terminated string is a pointer: \<open>None\<close> is the null pointer, \<open>Some s\<close> points
  to the characters \<open>s\<close>, followed by the terminator.
\<close>
definition Strlen :: "'a::len word list \<Rightarrow> nat" where
  "Strlen s = length (takeWhile (\<lambda>c. c \<noteq> 0) s)"

definition MakeUnconvertedView_Ansi_Len :: "ANSICHAR list \<Rightarrow> nat \<Rightarrow> ViewType" where
  "MakeUnconvertedView_Ansi_Len Str L = AnsiText \<lparr>AnsiStr = Str, AnsiLen = L\<rparr>"

definition MakeUnconvertedView_Ansi :: "ANSICHAR list option \<Rightarrow> ViewType" where
  "MakeUnconvertedView_Ansi Str =
     (case Str of None \<Rightarrow> AnsiText \<lparr>AnsiStr = [], AnsiLen = 0\<rparr>
      | Some s \<Rightarrow> AnsiText \<lparr>AnsiStr = s, AnsiLen = Strlen s\<rparr>)"

text \<open>\<open>IsWide(Str, Len)\<close>: some character has a bit above the seven low ones.\<close>
definition IsWideStr :: "WIDECHAR list \<Rightarrow> nat \<Rightarrow> bool" where
  "IsWideStr Str L =
     ((fold (\<lambda>c UserCharBits. UserCharBits OR ucast c) (take L Str) (0 :: uint32))
        AND 0xffffff80 \<noteq> 0)"

definition MakeUnconvertedView_Wide_Len :: "WIDECHAR list \<Rightarrow> nat \<Rightarrow> ViewType" where
  "MakeUnconvertedView_Wide_Len Str L =
     WideText \<lparr>WideStr = Str, WideLen = L, WidebIsWide = IsWideStr Str L\<rparr>"

definition MakeUnconvertedView_Wide :: "WIDECHAR list option \<Rightarrow> ViewType" where
  "MakeUnconvertedView_Wide Str =
     (case Str of None \<Rightarrow> WideText \<lparr>WideStr = [], WideLen = 0, WidebIsWide = False\<rparr>
      | Some s \<Rightarrow> WideText \<lparr>WideStr = s, WideLen = Strlen s,
                            WidebIsWide = IsWideStr s (Strlen s)\<rparr>)"

text \<open>
  Characters are compared by their codes: \<open>'0'\<close> is 0x30, \<open>'9'\<close> is 0x39, \<open>'_'\<close> is
  0x5F. \<open>Atoi64\<close> runs in 64-bit arithmetic (the model wraps where the source would
  overflow).
\<close>
definition Atoi64 :: "'a::len word list \<Rightarrow> uint64" where
  "Atoi64 Str = fold (\<lambda>c N. 10 * N + ucast c - 0x30) Str 0"

definition IsDigitChar :: "'a::len word \<Rightarrow> bool" where
  "IsDigitChar c = (0x30 \<le> unat c \<and> unat c \<le> 0x39)"

text \<open>
  The loop of \<open>ParseNumber\<close> that counts the digits at the end of the first \<open>I\<close>
  characters of \<open>Name\<close>: \<open>It\<close> points to \<open>Name + I - 1\<close>.
\<close>
fun CountDigits :: "'a::len word list \<Rightarrow> nat \<Rightarrow> nat" where
  "CountDigits NameStr 0 = 0"
| "CountDigits NameStr (Suc I) =
     (if IsDigitChar (NameStr ! I) then CountDigits NameStr I + 1 else 0)"

definition MaxDigitsInt32 :: nat where
  "MaxDigitsInt32 = 10"

text \<open>\<open>ParseNumber(Name, InOutLen)\<close>: the internal number and the length afterwards.\<close>
definition ParseNumber :: "'a::len word list \<Rightarrow> nat \<Rightarrow> uint32 \<times> nat" where
  "ParseNumber NameStr L =
     (let Digits = CountDigits NameStr L;
          FirstDigit = L - Digits
      in if Digits \<noteq> 0 \<and> Digits < L \<and> unat (NameStr ! (FirstDigit - 1)) = 0x5F
            \<and> Digits \<le> MaxDigitsInt32
            \<and> (Digits = 1 \<or> unat (NameStr ! FirstDigit) \<noteq> 0x30)
            \<and> sint (Atoi64 (take Digits (drop FirstDigit NameStr))) < MAX_int32
         then (ucast (NAME_EXTERNAL_TO_INTERNAL (Atoi64 (take Digits (drop FirstDigit NameStr)))),
               L - (1 + Digits))
         else (NAME_NO_NUMBER_INTERNAL, L))"

definition ReplaceName :: "FNameEntry \<Rightarrow> FNameStringView \<Rightarrow> error + FNameEntry" where
  "ReplaceName Existing Updated =
     (if bIsWide (Header Existing) = ViewIsWide Updated \<and> Len (Header Existing) = ViewLen Updated
      then Inr (StoreName Updated Existing) else Inl CheckFailed)"

text \<open>The comparison identifier of a display identifier, as \<open>Make\<close> reads it.\<close>
definition ComparisonId_of :: "config \<Rightarrow> FNameEntryAllocator \<Rightarrow> FNameEntryId \<Rightarrow> error + FNameEntryId" where
  "ComparisonId_of cfg A DisplayId =
     (if WITH_CASE_PRESERVING_NAME cfg
      then (case Resolve A (Handle_of_Id DisplayId) of
              None \<Rightarrow> Inl NoReturn
            | Some Entry \<Rightarrow> Inr (ComparisonId Entry))
      else Inr DisplayId)"

definition Make :: "config \<Rightarrow> FNameStringView \<Rightarrow> EFindName \<Rightarrow> uint32 \<Rightarrow> FNamePool
    \<Rightarrow> error + (FName \<times> FNamePool)" where
  "Make cfg View FindType InternalNumber P =
     (if ViewLen View \<ge> NAME_SIZE cfg then Inl CheckFailed
      else case FindType of
        FNAME_Add \<Rightarrow>
          rbind (Store cfg P View) (\<lambda>(DisplayId, P1).
            rbind (ComparisonId_of cfg (Entries P1) DisplayId) (\<lambda>CompId.
              Inr (\<lparr>ComparisonIndex = CompId, DisplayIndex = DisplayId,
                     Number = InternalNumber\<rparr>, P1)))
      | FNAME_Find \<Rightarrow>
          rbind (Pool_Find cfg P View) (\<lambda>DisplayId.
            rbind (if DisplayId \<noteq> 0 then ComparisonId_of cfg (Entries P) DisplayId
                   else Inr DisplayId) (\<lambda>CompId.
              Inr (\<lparr>ComparisonIndex = CompId, DisplayIndex = DisplayId,
                     Number = InternalNumber\<rparr>, P)))
      | FNAME_Replace_Not_Safe_For_Threading \<Rightarrow>
          rbind (Store cfg P View) (\<lambda>(DisplayId, P1).
            rbind (ComparisonId_of cfg (Entries P1) DisplayId) (\<lambda>CompId.
              case Resolve (Entries P1) (Handle_of_Id CompId) of
                None \<Rightarrow> Inl NoReturn
              | Some Existing \<Rightarrow>
                  rbind (ReplaceName Existing View) (\<lambda>Replaced.
                    Inr (\<lparr>ComparisonIndex = CompId, DisplayIndex = DisplayId,
                           Number = InternalNumber\<rparr>,
                         P1\<lparr>Entries := (Entries P1)\<lparr>Blocks :=
                              (Blocks (Entries P1))
                                ((Block (Handle_of_Id CompId), Offset (Handle_of_Id CompId))
                                   \<mapsto> Replaced)\<rparr>\<rparr>)))))"

text \<open>
  The two overloads of \<open>MakeWithNumber\<close>. A wide text without a wide character is
  copied into a narrow buffer first.
\<close>
fun MakeWithNumber :: "config \<Rightarrow> ViewType \<Rightarrow> EFindName \<Rightarrow> uint32 \<Rightarrow> FNamePool
    \<Rightarrow> error + (FName \<times> FNamePool)" where
  "MakeWithNumber cfg (AnsiText View) FindType InternalNumber P =
     (if AnsiLen View = 0 then Inr (FName_None, P)
      else Make cfg (AnsiView (take (AnsiLen View) (AnsiStr View))) FindType InternalNumber P)"
| "MakeWithNumber cfg (WideText View) FindType InternalNumber P =
     (if WideLen View = 0 then Inr (FName_None, P)
      else if \<not> WidebIsWide View
      then Make cfg (AnsiView (map ucast (take (WideLen View) (WideStr View))))
                    FindType InternalNumber P
      else Make cfg (WideView (take (WideLen View) (WideStr View))) FindType InternalNumber P)"

fun MakeDetectNumber :: "config \<Rightarrow> ViewType \<Rightarrow> EFindName \<Rightarrow> FNamePool
    \<Rightarrow> error + (FName \<times> FNamePool)" where
  "MakeDetectNumber cfg (AnsiText View) FindType P =
     (if AnsiLen View = 0 then Inr (FName_None, P)
      else let (InternalNumber, L) = ParseNumber (AnsiStr View) (AnsiLen View)
           in MakeWithNumber cfg (AnsiText (View\<lparr>AnsiLen := L\<rparr>)) FindType InternalNumber P)"
| "MakeDetectNumber cfg (WideText View) FindType P =
     (if WideLen View = 0 then Inr (FName_None, P)
      else let (InternalNumber, L) = ParseNumber (WideStr View) (WideLen View)
           in MakeWithNumber cfg (WideText (View\<lparr>WideLen := L\<rparr>)) FindType InternalNumber P)"

subsection \<open>Loading a serialized name entry from an archive\<close>

text \<open>
  \<open>FArchive\<close> is not among the sources. The model keeps what the loading branch of
  \<open>operator<<(FArchive&, FNameEntrySerialized&)\<close> uses of it: the bytes still to be
  read, the error flag that \<open>SetCriticalError\<close> sets, the maximum serialize size and
  the version. \<open>Serialize\<close> hands out the next bytes (at the end of the input, the
  bytes that are left).
\<close>

record FArchive =
  ArInput :: "uint8 list"
  ArIsCriticalError :: bool
  ArMaxSerializeSize :: int
  ArUE4Ver :: nat

definition Ar_Serialize :: "nat \<Rightarrow> FArchive \<Rightarrow> uint8 list \<times> FArchive" where
  "Ar_Serialize n Ar = (take n (ArInput Ar), Ar\<lparr>ArInput := drop n (ArInput Ar)\<rparr>)"

definition SetCriticalError :: "FArchive \<Rightarrow> FArchive" where
  "SetCriticalError Ar = Ar\<lparr>ArIsCriticalError := True\<rparr>"

definition GetMaxSerializeSize :: "FArchive \<Rightarrow> int" where
  "GetMaxSerializeSize Ar = ArMaxSerializeSize Ar"

text \<open>A little-endian 32-bit integer of the bytes read.\<close>
definition Word32_of :: "uint8 list \<Rightarrow> uint32" where
  "Word32_of bytes = foldr (\<lambda>b acc. ucast b OR push_bit 8 acc) bytes 0"

fun WideChars_of :: "uint8 list \<Rightarrow> WIDECHAR list" where
  "WideChars_of (lo # hi # rest) = (ucast lo OR push_bit 8 (ucast hi)) # WideChars_of rest"
| "WideChars_of rest = []"

record FNameEntrySerialized =
  SerbIsWide :: bool
  SerAnsiName :: "ANSICHAR list"
  SerWideName :: "WIDECHAR list"
  NonCasePreservingHash :: uint16
  CasePreservingHash :: uint16

text \<open>
  The loading branch of the operator. \<open>VER\<close> is the constant
  \<open>VER_UE4_NAME_HASHES_SERIALIZED\<close> of ObjectVersion.h. The entry holds its characters
  in the arrays \<open>AnsiName[NAME_SIZE]\<close> and \<open>WideName[NAME_SIZE]\<close>, and the operator does
  not compare the length with \<open>NAME_SIZE\<close>: a length above it that passes the test
  against the maximum serialize size is written past the end of the array, which is
  undefined in the source. The result is \<open>None\<close> there, and \<open>Some\<close> of the archive and
  the entry wherever the operator returns.
\<close>
definition Load_FNameEntrySerialized ::
    "config \<Rightarrow> nat \<Rightarrow> FArchive \<Rightarrow> FNameEntrySerialized
      \<Rightarrow> (FArchive \<times> FNameEntrySerialized) option" where
  "Load_FNameEntrySerialized cfg VER Ar E =
     (let (LenBytes, Ar1) = Ar_Serialize 4 Ar;
          StringLen = sint (Word32_of LenBytes);
          SkipHashes = (\<lambda>(Ar', E'). (snd (Ar_Serialize ((if ArUE4Ver Ar' \<ge> VER then 1 else 0) * 4) Ar'), E'))
      in if StringLen < 0
         then (if StringLen = MIN_int32 then Some (SetCriticalError Ar1, E)
               else let StringLen2 = - StringLen;
                        MaxSerializeSize = GetMaxSerializeSize Ar1
                    in if MaxSerializeSize > 0 \<and> StringLen2 > MaxSerializeSize
                       then Some (SetCriticalError Ar1, E)
                       else if nat StringLen2 > NAME_SIZE cfg then None
                       else let (Data, Ar2) = Ar_Serialize (nat StringLen2 * 2) Ar1
                            in Some (SkipHashes (Ar2, E\<lparr>SerbIsWide := True,
                                                   SerWideName := WideChars_of Data\<rparr>)))
         else let MaxSerializeSize = GetMaxSerializeSize Ar1
              in if MaxSerializeSize > 0 \<and> StringLen > MaxSerializeSize
                 then Some (SetCriticalError Ar1, E)
                 else if nat StringLen > NAME_SIZE cfg then None
                 else let (Data, Ar2) = Ar_Serialize (nat StringLen) Ar1
                      in Some (SkipHashes (Ar2, E\<lparr>SerbIsWide := False, SerAnsiName := Data\<rparr>)))"

subsection \<open>Batch serialization\<close>

text \<open>A \<open>TArray<uint8>\<close> is a list of bytes; values are appended in little-endian order.\<close>

definition Bytes64 :: "uint64 \<Rightarrow> uint8 list" where
  "Bytes64 v = map (\<lambda>i. ucast (drop_bit (8 * i) v)) [0..<8]"


text \<open>\<open>AddValue<uint64>\<close>, with the \<open>check\<close> of \<open>AddUninitializedElements\<close>.\<close>
definition AddValue64 :: "uint8 list \<Rightarrow> uint64 \<Rightarrow> error + uint8 list" where
  "AddValue64 Out v = (if length Out mod 8 = 0 then Inr (Out @ Bytes64 v) else Inl CheckFailed)"

text \<open>\<open>AlignTo<UTF16CHAR>\<close>.\<close>
definition AlignTo2 :: "uint8 list \<Rightarrow> uint8 list" where
  "AlignTo2 Out = (let UnpaddedBytes = length Out mod 2 in
                   if UnpaddedBytes \<noteq> 0 then Out @ replicate (2 - UnpaddedBytes) 0 else Out)"

text \<open>The two bytes of \<open>FSerializedNameHeader(Len, bIsUtf16)\<close> with its \<open>check\<close>.\<close>
definition FSerializedNameHeader :: "config \<Rightarrow> nat \<Rightarrow> bool \<Rightarrow> error + uint8 list" where
  "FSerializedNameHeader cfg L bIsUtf16 =
     (if L \<le> NAME_SIZE cfg
      then Inr [push_bit 7 (if bIsUtf16 then 1 else 0) OR ucast (drop_bit 8 (of_nat L :: uint32)),
                ucast (of_nat L :: uint32)]
      else Inl CheckFailed)"



definition SaveAnsiOrUtf16Name :: "config \<Rightarrow> uint8 list \<Rightarrow> FNameStringView \<Rightarrow> error + uint8 list" where
  "SaveAnsiOrUtf16Name cfg Out NameView =
     rbind (FSerializedNameHeader cfg (ViewLen NameView) (ViewIsWide NameView))
       (\<lambda>HeaderData.
          let Out1 = Out @ HeaderData in
          case NameView of
            WideView s \<Rightarrow> Inr (AlignTo2 Out1 @ concat (map WideBytes s))
          | AnsiView s \<Rightarrow> Inr (Out1 @ s))"

text \<open>The loop of \<open>SaveNameBatch\<close> over the names, on the two output arrays.\<close>
fun SaveNames :: "config \<Rightarrow> FNamePool \<Rightarrow> FNameEntryId list \<Rightarrow> uint8 list \<Rightarrow> uint8 list
    \<Rightarrow> error + (uint8 list \<times> uint8 list)" where
  "SaveNames cfg P [] OutNameData OutHashData = Inr (OutNameData, OutHashData)"
| "SaveNames cfg P (EntryId # Rest) OutNameData OutHashData =
     (case Resolve (Entries P) (Handle_of_Id EntryId) of
        None \<Rightarrow> Inl NoReturn
      | Some Entry \<Rightarrow>
          (case SaveAnsiOrUtf16Name cfg OutNameData (MakeView Entry) of
             Inl e \<Rightarrow> Inl e
           | Inr NameData1 \<Rightarrow>
               (case AddValue64 OutHashData (GenerateLowerCaseHash cfg (MakeView Entry)) of
                  Inl e \<Rightarrow> Inl e
                | Inr HashData1 \<Rightarrow> SaveNames cfg P Rest NameData1 HashData1)))"

text \<open>
  \<open>SaveNameBatch\<close>: the two output arrays come in with whatever they held and are
  emptied first.
\<close>
definition SaveNameBatch :: "config \<Rightarrow> FNamePool \<Rightarrow> FNameEntryId list \<Rightarrow> uint8 list \<Rightarrow> uint8 list
    \<Rightarrow> error + (uint8 list \<times> uint8 list)" where
  "SaveNameBatch cfg P Names OutNameData OutHashData =
     rbind (AddValue64 [] AlgorithmId) (\<lambda>HashData0. SaveNames cfg P Names [] HashData0)"








section \<open>Splitting a numeric suffix off a text\<close>

text \<open>
  The words of the specification: the decimal value of a digit string, a suffix that
  may be split off (1 to 10 decimal digits, no leading zero unless the suffix is
  exactly "0", and a value whose biased internal number still fits the 32-bit signed
  range, that is a value below \<open>MAX_int32\<close>), and a text that ends in an underscore
  followed by such a suffix.
\<close>

definition DecValue :: "'a::len word list \<Rightarrow> nat" where
  "DecValue ds = fold (\<lambda>c n. 10 * n + (unat c - 48)) ds 0"

definition SplittableSuffix :: "'a::len word list \<Rightarrow> bool" where
  "SplittableSuffix ds =
     (ds \<noteq> [] \<and> length ds \<le> 10 \<and> list_all IsDigitChar ds
      \<and> (length ds = 1 \<or> unat (hd ds) \<noteq> 0x30) \<and> DecValue ds < 2147483647)"

definition HasNumberSuffix :: "'a::len word list \<Rightarrow> bool" where
  "HasNumberSuffix text =
     (\<exists>pre u ds. text = pre @ u # ds \<and> unat u = 0x5F \<and> SplittableSuffix ds)"

text \<open>A configuration for concrete evaluations: the case preserving build with a toy hash.\<close>
definition Example_config :: config where
  "Example_config =
     \<lparr>WITH_CASE_PRESERVING_NAME = True,
      CityHash64 = (\<lambda>bytes. fold (\<lambda>b h. 31 * h + ucast b) bytes 7 * 0x9E3779B97F4A7C15),
      Stride = 4, DataOffset = 6, NAME_SIZE = 1024, ProbeHashBits = 5\<rparr>"

lemma sint_of_nat64:
  "n < 2 ^ 63 \<Longrightarrow> sint (of_nat n :: 64 word) = int n"
  by (simp add: signed_of_nat signed_take_bit_int_eq_self)

lemma CountDigits_takeWhile:
  "I \<le> length s \<Longrightarrow> CountDigits s I = length (takeWhile IsDigitChar (rev (take I s)))"
proof (induction I)
  case 0
  then show ?case by simp
next
  case (Suc I)
  then have "take (Suc I) s = take I s @ [s ! I]"
    by (simp add: take_Suc_conv_app_nth)
  with Suc show ?case by simp
qed

lemma Atoi64_of_nat_aux:
  "list_all IsDigitChar ds \<Longrightarrow>
   fold (\<lambda>c N. 10 * N + ucast c - 0x30) ds (of_nat n :: uint64)
     = of_nat (fold (\<lambda>c n. 10 * n + (unat c - 48)) ds n)"
proof (induction ds arbitrary: n)
  case Nil
  then show ?case by simp
next
  case (Cons c ds)
  then have d: "48 \<le> unat c" by (simp add: IsDigitChar_def)
  have "(ucast c :: uint64) = of_nat (unat c)" by simp
  then have e: "(10 * of_nat n + ucast c - 0x30 :: uint64) = of_nat (10 * n + (unat c - 48))"
    using d by (simp add: of_nat_diff)
  have "fold (\<lambda>c N. 10 * N + ucast c - 0x30) (c # ds) (of_nat n :: uint64)
      = fold (\<lambda>c N. 10 * N + ucast c - 0x30) ds (10 * of_nat n + ucast c - 0x30)"
    by simp
  also have "\<dots> = fold (\<lambda>c N. 10 * N + ucast c - 0x30) ds (of_nat (10 * n + (unat c - 48)))"
    by (simp only: e)
  also have "\<dots> = of_nat (fold (\<lambda>c n. 10 * n + (unat c - 48)) ds (10 * n + (unat c - 48)))"
    using Cons.prems by (intro Cons.IH) simp
  finally show ?case by simp
qed

lemma Atoi64_of_nat: "list_all IsDigitChar ds \<Longrightarrow> Atoi64 ds = of_nat (DecValue ds)"
  using Atoi64_of_nat_aux[of ds 0] by (simp add: Atoi64_def DecValue_def)

lemma DecValue_bound_aux:
  "list_all IsDigitChar ds \<Longrightarrow>
   fold (\<lambda>c n. 10 * n + (unat c - 48)) ds n < (n + 1) * 10 ^ length ds"
proof (induction ds arbitrary: n)
  case Nil
  then show ?case by simp
next
  case (Cons c ds)
  then have "unat c \<le> 57" by (simp add: IsDigitChar_def)
  then have "10 * n + (unat c - 48) + 1 \<le> (n + 1) * 10" by simp
  then have "(10 * n + (unat c - 48) + 1) * 10 ^ length ds \<le> (n + 1) * 10 * 10 ^ length ds"
    by (rule mult_le_mono1)
  moreover have "fold (\<lambda>c n. 10 * n + (unat c - 48)) ds (10 * n + (unat c - 48))
      < (10 * n + (unat c - 48) + 1) * 10 ^ length ds"
    using Cons by simp
  ultimately have "fold (\<lambda>c n. 10 * n + (unat c - 48)) ds (10 * n + (unat c - 48))
      < (n + 1) * 10 * 10 ^ length ds"
    by (rule less_le_trans[rotated])
  then show ?case by (simp add: algebra_simps)
qed

lemma DecValue_bound: "list_all IsDigitChar ds \<Longrightarrow> DecValue ds < 10 ^ length ds"
  using DecValue_bound_aux[of ds 0] by (simp add: DecValue_def)

lemma sint_Atoi64:
  assumes "list_all IsDigitChar ds" "length ds \<le> 10"
  shows "sint (Atoi64 ds) = int (DecValue ds)"
proof -
  have "DecValue ds < 10 ^ length ds" using assms DecValue_bound by blast
  also have "\<dots> \<le> (10::nat) ^ 10" using assms(2) by (rule power_increasing) simp
  finally have b: "DecValue ds < 2 ^ 63" by simp
  then show ?thesis using assms Atoi64_of_nat[of ds] by (simp add: sint_of_nat64)
qed

lemma ucast_of_nat_64_32: "(ucast (of_nat m :: uint64) :: uint32) = of_nat m"
proof -
  have "take_bit 32 (take_bit 64 m) = take_bit 32 m" for m :: nat
    by (simp add: take_bit_take_bit)
  then show ?thesis
    by (simp only: unsigned_of_nat word_of_nat_eq_iff len_bit0 len_num1 mult_numeral_1_right
        numeral_times_numeral semiring_norm of_nat_eq_id id_apply)
qed

text \<open>The digits at the end of a text.\<close>
definition TrailingDigits :: "'a::len word list \<Rightarrow> 'a word list" where
  "TrailingDigits text = rev (takeWhile IsDigitChar (rev text))"

lemma TrailingDigits_split:
  "text = take (length text - length (TrailingDigits text)) text @ TrailingDigits text"
proof -
  define A where "A = rev (dropWhile IsDigitChar (rev text))"
  define B where "B = TrailingDigits text"
  have "rev (takeWhile IsDigitChar xs @ dropWhile IsDigitChar xs) = rev xs" for xs :: "'a word list"
    by simp
  then have "rev (dropWhile IsDigitChar xs) @ rev (takeWhile IsDigitChar xs) = rev xs"
    for xs :: "'a word list"
    by (simp only: rev_append)
  from this[of "rev text"] have e: "text = A @ B"
    unfolding A_def B_def TrailingDigits_def by (simp only: rev_rev_ident)
  have "A @ B = take (length (A @ B) - length B) (A @ B) @ B" by simp
  then show ?thesis unfolding B_def[symmetric] e[symmetric] .
qed

lemma TrailingDigits_append:
  assumes "list_all IsDigitChar ds" "\<not> IsDigitChar u"
  shows "TrailingDigits (pre @ u # ds) = ds"
proof -
  have "rev (pre @ u # ds) = rev ds @ u # rev pre" by simp
  moreover have "takeWhile IsDigitChar (rev ds @ u # rev pre) = rev ds"
    using assms by (simp add: takeWhile_tail takeWhile_eq_all_conv list_all_iff)
  ultimately show ?thesis by (simp add: TrailingDigits_def)
qed

lemma HasNumberSuffix_iff:
  "HasNumberSuffix text \<longleftrightarrow>
     (let ds = TrailingDigits text in
      SplittableSuffix ds \<and> length ds < length text
      \<and> unat (text ! (length text - length ds - 1)) = 0x5F)"
proof
  assume "HasNumberSuffix text"
  then obtain pre u ds where t: "text = pre @ u # ds" and u: "unat u = 0x5F"
    and s: "SplittableSuffix ds"
    unfolding HasNumberSuffix_def by blast
  have "\<not> IsDigitChar u" using u by (simp add: IsDigitChar_def)
  then have "TrailingDigits text = ds"
    using s t TrailingDigits_append[of ds u pre] by (simp add: SplittableSuffix_def)
  then show "let ds = TrailingDigits text in
      SplittableSuffix ds \<and> length ds < length text
      \<and> unat (text ! (length text - length ds - 1)) = 0x5F"
    using s t u by (simp add: nth_append)
next
  let ?ds = "TrailingDigits text"
  let ?k = "length text - length ?ds"
  assume "let ds = TrailingDigits text in
      SplittableSuffix ds \<and> length ds < length text
      \<and> unat (text ! (length text - length ds - 1)) = 0x5F"
  then have s: "SplittableSuffix ?ds" and l: "length ?ds < length text"
    and u: "unat (text ! (?k - 1)) = 0x5F"
    by (simp_all add: Let_def)
  have "text = take ?k text @ ?ds" by (rule TrailingDigits_split)
  moreover have "take (Suc (?k - 1)) text = take (?k - 1) text @ [text ! (?k - 1)]"
    by (rule take_Suc_conv_app_nth) (use l in simp)
  then have "take ?k text = take (?k - 1) text @ [text ! (?k - 1)]"
    using l by (simp add: Suc_diff_Suc)
  ultimately have "text = take (?k - 1) text @ text ! (?k - 1) # ?ds" by simp
  then show "HasNumberSuffix text"
    unfolding HasNumberSuffix_def using s u by blast
qed

lemma ParseNumber_eq:
  assumes "L \<le> length s"
  shows "ParseNumber s L =
     (if HasNumberSuffix (take L s)
      then (NAME_EXTERNAL_TO_INTERNAL (of_nat (DecValue (TrailingDigits (take L s)))),
            L - (1 + length (TrailingDigits (take L s))))
      else (NAME_NO_NUMBER_INTERNAL, L))"
proof -
  let ?t = "take L s"
  let ?ds = "TrailingDigits ?t"
  let ?D = "length ?ds"
  have lt: "length ?t = L" using assms by simp
  have D: "CountDigits s L = ?D"
    using assms by (simp add: CountDigits_takeWhile TrailingDigits_def)
  have DL: "?D \<le> L"
    using lt by (metis TrailingDigits_def length_rev length_takeWhile_le)
  have b: "?t = take (L - ?D) ?t @ ?ds"
    using TrailingDigits_split[of ?t] by (simp only: lt)
  have a: "take (L - ?D) ?t @ drop (L - ?D) ?t = ?t" by (rule append_take_drop_id)
  have "take (L - ?D) ?t @ drop (L - ?D) ?t = take (L - ?D) ?t @ ?ds"
    by (rule trans[OF a b])
  then have "drop (L - ?D) ?t = ?ds"
    by (simp only: same_append_eq)
  then have ds: "take ?D (drop (L - ?D) s) = ?ds"
    using DL by (simp add: drop_take)
  have digs: "list_all IsDigitChar ?ds"
    unfolding TrailingDigits_def list_all_iff by (metis set_rev set_takeWhileD)
  have hd: "hd ?ds = s ! (L - ?D)" if "?ds \<noteq> []"
  proof -
    have d0: "0 < ?D" using that by simp
    have "L - ?D < length s" using assms DL d0 by linarith
    then have "hd (drop (L - ?D) s) = s ! (L - ?D)" by (rule hd_drop_conv_nth)
    moreover have "hd (take ?D (drop (L - ?D) s)) = hd (drop (L - ?D) s)"
      using \<open>0 < ?D\<close> by (simp add: hd_take)
    ultimately show ?thesis using ds by simp
  qed
  have nthu: "?D < L \<Longrightarrow> ?t ! (L - ?D - 1) = s ! (L - ?D - 1)"
    by simp
  have at: "?D \<le> 10 \<Longrightarrow> sint (Atoi64 ?ds) = int (DecValue ?ds)"
    using digs by (rule sint_Atoi64)
  have w: "ucast (NAME_EXTERNAL_TO_INTERNAL (Atoi64 ?ds)) =
      (NAME_EXTERNAL_TO_INTERNAL (of_nat (DecValue ?ds)) :: uint32)"
  proof -
    have "(ucast (of_nat (Suc (DecValue ?ds)) :: uint64) :: uint32) = of_nat (Suc (DecValue ?ds))"
      by (rule ucast_of_nat_64_32)
    then show ?thesis
      using Atoi64_of_nat[OF digs] by (simp add: NAME_EXTERNAL_TO_INTERNAL_def add.commute)
  qed
  show ?thesis
    unfolding ParseNumber_def Let_def D ds HasNumberSuffix_iff lt
    using hd nthu at digs w
    by (auto simp: SplittableSuffix_def MaxDigitsInt32_def MAX_int32_def)
qed


lemma high_bit_clear:
  fixes w :: "'a::len word"
  assumes "unat w < 2 ^ k" "k \<le> n"
  shows "\<not> bit w n"
proof -
  have "unat (take_bit k w) = unat w"
    using assms(1) by (simp add: unsigned_take_bit_eq take_bit_nat_eq_self)
  then have "take_bit k w = w"
    by (simp add: word_unat_eq_iff)
  then have "bit w n = bit (take_bit k w) n" by simp
  then show ?thesis using assms(2) by (simp add: bit_take_bit_iff)
qed

lemma bit_imp_lt:
  fixes w :: "'a::len word"
  shows "bit w n \<Longrightarrow> unat w < 2 ^ k \<Longrightarrow> n < k"
  using high_bit_clear[of w k n] by (cases "n < k") auto

lemma not_mask7: "(NOT (mask 7) :: 32 word) = 0xffffff80"
  by (simp add: mask_eq_exp_minus_1)

lemma high_bits_iff:
  fixes w :: "32 word"
  shows "(w AND 0xffffff80 = 0) \<longleftrightarrow> unat w < 128"
proof
  assume a: "unat w < 128"
  have "w AND NOT (mask 7) = 0"
    by (rule bit_word_eqI) (use a high_bit_clear[of w 7] in \<open>fastforce simp: bit_simps\<close>)
  then show "w AND 0xffffff80 = 0" by (simp only: not_mask7)
next
  assume "w AND 0xffffff80 = 0"
  then have z: "w AND NOT (mask 7) = 0" by (simp only: not_mask7)
  have "take_bit 7 w = w"
  proof (rule bit_word_eqI)
    fix n assume n: "n < LENGTH(32)"
    have "\<not> bit (w AND NOT (mask 7)) n" using z by simp
    then show "bit (take_bit 7 w) n = bit w n"
      using n by (auto simp: bit_simps)
  qed
  then have "unat w = take_bit 7 (unat w)" by (metis unsigned_take_bit_eq)
  then show "unat w < 128" using take_bit_nat_less_exp[of 7 "unat w"] by simp
qed

lemma unat_ucast16_32: "unat (ucast (c :: 16 word) :: 32 word) = unat c"
proof -
  have "unat c < 2 ^ 16" using unsigned_less[of c] by simp
  then have "unat c < 2 ^ 32" by simp
  then show ?thesis by (simp add: unsigned_ucast_eq take_bit_nat_eq_self)
qed

lemma fold_or_high_bits:
  fixes acc :: uint32 and xs :: "WIDECHAR list"
  shows "(fold (\<lambda>c UserCharBits. UserCharBits OR ucast c) xs acc AND 0xffffff80 = 0)
     \<longleftrightarrow> (acc AND 0xffffff80 = 0 \<and> (\<forall>c\<in>set xs. unat c < 128))"
proof (induction xs arbitrary: acc)
  case Nil
  then show ?case by simp
next
  case (Cons c xs)
  have "((acc OR ucast c) AND 0xffffff80 = 0)
      \<longleftrightarrow> (acc AND 0xffffff80 = 0 \<and> (ucast c :: uint32) AND 0xffffff80 = 0)"
    by (simp only: bit.conj_disj_distrib2 or_eq_0_iff)
  then show ?case
    using Cons[of "acc OR ucast c"] by (auto simp: high_bits_iff unat_ucast16_32)
qed

lemma IsWideStr_iff: "IsWideStr Str L \<longleftrightarrow> (\<exists>c\<in>set (take L Str). 128 \<le> unat c)"
  unfolding IsWideStr_def using fold_or_high_bits[of "take L Str" 0] by (auto simp: not_less)

lemma MakeWithNumber_Ansi_take:
  "take L s = take L s' \<Longrightarrow>
   MakeWithNumber cfg (MakeUnconvertedView_Ansi_Len s L) ft n P
     = MakeWithNumber cfg (MakeUnconvertedView_Ansi_Len s' L) ft n P"
  by (simp add: MakeUnconvertedView_Ansi_Len_def)

lemma MakeDetectNumber_Ansi_eq:
  assumes "L \<le> length s"
  shows "MakeDetectNumber cfg (MakeUnconvertedView_Ansi_Len s L) ft P =
     (if HasNumberSuffix (take L s)
      then MakeWithNumber cfg
             (MakeUnconvertedView_Ansi_Len s (L - (1 + length (TrailingDigits (take L s))))) ft
             (NAME_EXTERNAL_TO_INTERNAL (of_nat (DecValue (TrailingDigits (take L s))))) P
      else MakeWithNumber cfg (MakeUnconvertedView_Ansi_Len s L) ft NAME_NO_NUMBER_INTERNAL P)"
  using ParseNumber_eq[OF assms]
  by (auto simp: MakeUnconvertedView_Ansi_Len_def HasNumberSuffix_iff Let_def)

lemma MakeDetectNumber_Wide_eq:
  assumes "L \<le> length s"
  shows "MakeDetectNumber cfg (MakeUnconvertedView_Wide_Len s L) ft P =
     (if HasNumberSuffix (take L s)
      then MakeWithNumber cfg
             (WideText \<lparr>WideStr = s, WideLen = L - (1 + length (TrailingDigits (take L s))),
                        WidebIsWide = IsWideStr s L\<rparr>) ft
             (NAME_EXTERNAL_TO_INTERNAL (of_nat (DecValue (TrailingDigits (take L s))))) P
      else MakeWithNumber cfg (MakeUnconvertedView_Wide_Len s L) ft NAME_NO_NUMBER_INTERNAL P)"
  using ParseNumber_eq[OF assms]
  by (auto simp: MakeUnconvertedView_Wide_Len_def HasNumberSuffix_iff Let_def)

lemma split_text_facts:
  fixes pre ds rest :: "'a::len word list"
  assumes "unat u = 0x5F" "SplittableSuffix ds"
  defines "s \<equiv> pre @ u # ds @ rest" and "L \<equiv> length pre + 1 + length ds"
  shows "L \<le> length s" "take L s = pre @ u # ds" "HasNumberSuffix (take L s)"
    "TrailingDigits (take L s) = ds" "take (length pre) s = pre"
proof -
  show "L \<le> length s" by (simp add: s_def L_def)
  show t: "take L s = pre @ u # ds" by (simp add: s_def L_def)
  show "HasNumberSuffix (take L s)"
    unfolding t HasNumberSuffix_def using assms(1,2) by blast
  have "\<not> IsDigitChar u" using assms(1) by (simp add: IsDigitChar_def)
  then show "TrailingDigits (take L s) = ds"
    unfolding t using assms(2) by (simp add: TrailingDigits_append SplittableSuffix_def)
  show "take (length pre) s = pre" by (simp add: s_def)
qed

text \<open>
  Claim C1. A text that ends in an underscore followed by a suffix that may be split
  (\<open>SplittableSuffix\<close>: 1 to 10 digits, no leading zero unless it is "0", value below
  \<open>MAX_int32\<close>) is constructed as its prefix with the biased number supplied
  explicitly; the buffer may go on after the length that is read (\<open>rest\<close>). Every
  other text is constructed whole with no number. Both hold for narrow and for wide
  text, for every find mode and pool. The conversion of up to 10 digits never leaves
  the 64-bit range: \<open>Atoi64\<close> returns the decimal value. The bound on the value is
  the one of the source, \<open>Number < MAX_int32\<close>: the suffixes 2147483647 and 2147483648
  that the claim lists among the texts that are not split are not split.
\<close>

theorem MakeDetectNumber_suffix_split:
  fixes pre ds rest s :: "ANSICHAR list" and wpre wds wrest ws :: "WIDECHAR list"
  shows
  "(unat u = 0x5F \<and> SplittableSuffix ds \<longrightarrow>
      MakeDetectNumber cfg
        (MakeUnconvertedView_Ansi_Len (pre @ u # ds @ rest) (length pre + 1 + length ds)) ft P
      = MakeWithNumber cfg (MakeUnconvertedView_Ansi_Len pre (length pre)) ft
          (NAME_EXTERNAL_TO_INTERNAL (of_nat (DecValue ds))) P)
   \<and> (L \<le> length s \<and> \<not> HasNumberSuffix (take L s) \<longrightarrow>
      MakeDetectNumber cfg (MakeUnconvertedView_Ansi_Len s L) ft P
      = MakeWithNumber cfg (MakeUnconvertedView_Ansi_Len s L) ft NAME_NO_NUMBER_INTERNAL P)
   \<and> (unat wu = 0x5F \<and> SplittableSuffix wds \<longrightarrow>
      MakeDetectNumber cfg
        (MakeUnconvertedView_Wide_Len (wpre @ wu # wds @ wrest) (length wpre + 1 + length wds)) ft P
      = MakeWithNumber cfg (MakeUnconvertedView_Wide_Len wpre (length wpre)) ft
          (NAME_EXTERNAL_TO_INTERNAL (of_nat (DecValue wds))) P)
   \<and> (wL \<le> length ws \<and> \<not> HasNumberSuffix (take wL ws) \<longrightarrow>
      MakeDetectNumber cfg (MakeUnconvertedView_Wide_Len ws wL) ft P
      = MakeWithNumber cfg (MakeUnconvertedView_Wide_Len ws wL) ft NAME_NO_NUMBER_INTERNAL P)
   \<and> (list_all IsDigitChar ds \<and> length ds \<le> 10 \<longrightarrow>
      sint (Atoi64 ds) = int (DecValue ds) \<and> DecValue ds < 10 ^ 10)"
proof (intro conjI impI)
  assume a: "unat u = 0x5F \<and> SplittableSuffix ds"
  note f = split_text_facts[of u ds pre rest]
  have "MakeDetectNumber cfg
        (MakeUnconvertedView_Ansi_Len (pre @ u # ds @ rest) (length pre + 1 + length ds)) ft P
      = MakeWithNumber cfg (MakeUnconvertedView_Ansi_Len (pre @ u # ds @ rest) (length pre)) ft
          (NAME_EXTERNAL_TO_INTERNAL (of_nat (DecValue ds))) P"
    using a f by (simp add: MakeDetectNumber_Ansi_eq)
  also have "\<dots> = MakeWithNumber cfg (MakeUnconvertedView_Ansi_Len pre (length pre)) ft
          (NAME_EXTERNAL_TO_INTERNAL (of_nat (DecValue ds))) P"
    by (rule MakeWithNumber_Ansi_take) simp
  finally show "MakeDetectNumber cfg
        (MakeUnconvertedView_Ansi_Len (pre @ u # ds @ rest) (length pre + 1 + length ds)) ft P
      = MakeWithNumber cfg (MakeUnconvertedView_Ansi_Len pre (length pre)) ft
          (NAME_EXTERNAL_TO_INTERNAL (of_nat (DecValue ds))) P" .
next
  assume "L \<le> length s \<and> \<not> HasNumberSuffix (take L s)"
  then show "MakeDetectNumber cfg (MakeUnconvertedView_Ansi_Len s L) ft P
      = MakeWithNumber cfg (MakeUnconvertedView_Ansi_Len s L) ft NAME_NO_NUMBER_INTERNAL P"
    by (simp add: MakeDetectNumber_Ansi_eq)
next
  assume a: "unat wu = 0x5F \<and> SplittableSuffix wds"
  note f = split_text_facts[of wu wds wpre wrest]
  let ?s = "wpre @ wu # wds @ wrest"
  let ?L = "length wpre + 1 + length wds"
  have small: "\<forall>c\<in>set (wu # wds). unat c < 128"
    using a by (auto simp: SplittableSuffix_def list_all_iff IsDigitChar_def)
  have "IsWideStr ?s ?L = IsWideStr wpre (length wpre)"
    unfolding IsWideStr_iff using f a small by (auto simp: not_le[symmetric])
  moreover have "MakeDetectNumber cfg (MakeUnconvertedView_Wide_Len ?s ?L) ft P
      = MakeWithNumber cfg
          (WideText \<lparr>WideStr = ?s, WideLen = length wpre, WidebIsWide = IsWideStr ?s ?L\<rparr>) ft
          (NAME_EXTERNAL_TO_INTERNAL (of_nat (DecValue wds))) P"
    using a f by (simp add: MakeDetectNumber_Wide_eq)
  ultimately show "MakeDetectNumber cfg (MakeUnconvertedView_Wide_Len ?s ?L) ft P
      = MakeWithNumber cfg (MakeUnconvertedView_Wide_Len wpre (length wpre)) ft
          (NAME_EXTERNAL_TO_INTERNAL (of_nat (DecValue wds))) P"
    by (simp add: MakeUnconvertedView_Wide_Len_def)
next
  assume "wL \<le> length ws \<and> \<not> HasNumberSuffix (take wL ws)"
  then show "MakeDetectNumber cfg (MakeUnconvertedView_Wide_Len ws wL) ft P
      = MakeWithNumber cfg (MakeUnconvertedView_Wide_Len ws wL) ft NAME_NO_NUMBER_INTERNAL P"
    by (simp add: MakeDetectNumber_Wide_eq)
next
  assume a: "list_all IsDigitChar ds \<and> length ds \<le> 10"
  then show "sint (Atoi64 ds) = int (DecValue ds)" by (simp add: sint_Atoi64)
next
  assume a: "list_all IsDigitChar ds \<and> length ds \<le> 10"
  then have "DecValue ds < 10 ^ length ds" by (simp add: DecValue_bound)
  also have "\<dots> \<le> (10::nat) ^ 10" using a by (intro power_increasing) simp_all
  finally show "DecValue ds < 10 ^ 10" .
qed

text \<open>
  Claim C10. Construction with an explicitly supplied number from a text of length
  zero (a null pointer, an empty string, or an explicit length of 0) ignores the
  number: for every number, find mode and pool the result is the default name
  \<open>FName_None\<close>, whose number is \<open>NAME_NO_NUMBER_INTERNAL\<close>, and the pool is unchanged.
\<close>

theorem MakeWithNumber_empty:
  "(TextLen View = 0 \<longrightarrow> MakeWithNumber cfg View ft n P = Inr (FName_None, P))
   \<and> TextLen (MakeUnconvertedView_Ansi None) = 0
   \<and> TextLen (MakeUnconvertedView_Wide None) = 0
   \<and> TextLen (MakeUnconvertedView_Ansi (Some [])) = 0
   \<and> TextLen (MakeUnconvertedView_Wide (Some [])) = 0
   \<and> TextLen (MakeUnconvertedView_Ansi_Len Str 0) = 0
   \<and> TextLen (MakeUnconvertedView_Wide_Len WStr 0) = 0
   \<and> Number FName_None = NAME_NO_NUMBER_INTERNAL
   \<and> ComparisonIndex FName_None = 0 \<and> DisplayIndex FName_None = 0"
  by (cases View)
     (simp_all add: MakeUnconvertedView_Ansi_def MakeUnconvertedView_Wide_def Strlen_def
        MakeUnconvertedView_Ansi_Len_def MakeUnconvertedView_Wide_Len_def FName_None_def)

theorem MakeWithNumber_empty_witness:
  "TextLen (MakeUnconvertedView_Ansi None) = 0
   \<and> MakeWithNumber Example_config (MakeUnconvertedView_Ansi None) FNAME_Add 5 FNamePool_Initialize
       = Inr (FName_None, FNamePool_Initialize)
   \<and> MakeWithNumber Example_config (MakeUnconvertedView_Wide_Len [0x41, 0x42] 0) FNAME_Find 1
         FNamePool_Initialize
       = Inr (FName_None, FNamePool_Initialize)"
  using MakeWithNumber_empty[of "MakeUnconvertedView_Ansi None" Example_config FNAME_Add 5
      FNamePool_Initialize]
    MakeWithNumber_empty[of "MakeUnconvertedView_Wide_Len [0x41, 0x42] 0" Example_config FNAME_Find 1
      FNamePool_Initialize "[]" "[0x41, 0x42]"]
  by simp


definition Example_Text :: "ANSICHAR list" where
  "Example_Text = [0x54, 0x65, 0x78, 0x74]"

definition Example_Text_00 :: "ANSICHAR list" where
  "Example_Text_00 = Example_Text @ [0x5F, 0x30, 0x30]"

definition Example_2147483646 :: "WIDECHAR list" where
  "Example_2147483646 = [0x32, 0x31, 0x34, 0x37, 0x34, 0x38, 0x33, 0x36, 0x34, 0x36]"

definition Example_T_2147483647 :: "WIDECHAR list" where
  "Example_T_2147483647 = [0x54, 0x5F, 0x32, 0x31, 0x34, 0x37, 0x34, 0x38, 0x33, 0x36, 0x34, 0x37]"

definition Example_T_2147483648 :: "WIDECHAR list" where
  "Example_T_2147483648 = [0x54, 0x5F, 0x32, 0x31, 0x34, 0x37, 0x34, 0x38, 0x33, 0x36, 0x34, 0x38]"

definition Example_9999999999 :: "ANSICHAR list" where
  "Example_9999999999 = [0x39, 0x39, 0x39, 0x39, 0x39, 0x39, 0x39, 0x39, 0x39, 0x39]"

theorem MakeDetectNumber_suffix_split_witness:
  "unat (0x5F :: ANSICHAR) = 0x5F \<and> SplittableSuffix [0x30 :: ANSICHAR]
   \<and> MakeDetectNumber Example_config
         (MakeUnconvertedView_Ansi_Len (Example_Text @ [0x5F, 0x30])
            (length (Example_Text @ [0x5F, 0x30])))
         FNAME_Add FNamePool_Initialize
       = MakeWithNumber Example_config
           (MakeUnconvertedView_Ansi_Len Example_Text (length Example_Text))
           FNAME_Add (NAME_EXTERNAL_TO_INTERNAL 0) FNamePool_Initialize
   \<and> \<not> HasNumberSuffix Example_Text_00
   \<and> MakeDetectNumber Example_config
         (MakeUnconvertedView_Ansi_Len Example_Text_00 (length Example_Text_00))
         FNAME_Add FNamePool_Initialize
       = MakeWithNumber Example_config
           (MakeUnconvertedView_Ansi_Len Example_Text_00 (length Example_Text_00))
           FNAME_Add NAME_NO_NUMBER_INTERNAL FNamePool_Initialize
   \<and> \<not> HasNumberSuffix Example_T_2147483647
   \<and> MakeDetectNumber Example_config
         (MakeUnconvertedView_Wide_Len Example_T_2147483647 (length Example_T_2147483647))
         FNAME_Find FNamePool_Initialize
       = MakeWithNumber Example_config
           (MakeUnconvertedView_Wide_Len Example_T_2147483647 (length Example_T_2147483647))
           FNAME_Find NAME_NO_NUMBER_INTERNAL FNamePool_Initialize
   \<and> \<not> HasNumberSuffix Example_T_2147483648
   \<and> MakeDetectNumber Example_config
         (MakeUnconvertedView_Wide_Len Example_T_2147483648 (length Example_T_2147483648))
         FNAME_Add FNamePool_Initialize
       = MakeWithNumber Example_config
           (MakeUnconvertedView_Wide_Len Example_T_2147483648 (length Example_T_2147483648))
           FNAME_Add NAME_NO_NUMBER_INTERNAL FNamePool_Initialize
   \<and> SplittableSuffix Example_2147483646
   \<and> MakeDetectNumber Example_config
         (MakeUnconvertedView_Wide_Len ([0x54, 0x5F] @ Example_2147483646)
            (length ([0x54, 0x5F] @ Example_2147483646)))
         FNAME_Find FNamePool_Initialize
       = MakeWithNumber Example_config (MakeUnconvertedView_Wide_Len [0x54] (length [0x54 :: WIDECHAR]))
           FNAME_Find (NAME_EXTERNAL_TO_INTERNAL 2147483646) FNamePool_Initialize
   \<and> sint (Atoi64 Example_9999999999) = 9999999999"
proof -
  have a: "SplittableSuffix [0x30 :: ANSICHAR]"
    by (simp add: SplittableSuffix_def IsDigitChar_def DecValue_def)
  have b: "\<not> HasNumberSuffix Example_Text_00"
    by (simp add: HasNumberSuffix_iff TrailingDigits_def SplittableSuffix_def IsDigitChar_def
        Example_Text_00_def Example_Text_def)
  have c: "\<not> HasNumberSuffix Example_T_2147483647"
    by (simp add: HasNumberSuffix_iff TrailingDigits_def SplittableSuffix_def IsDigitChar_def
        DecValue_def Example_T_2147483647_def)
  have c': "\<not> HasNumberSuffix Example_T_2147483648"
    by (simp add: HasNumberSuffix_iff TrailingDigits_def SplittableSuffix_def IsDigitChar_def
        DecValue_def Example_T_2147483648_def)
  have e: "DecValue Example_2147483646 = 2147483646"
    by (simp add: DecValue_def Example_2147483646_def)
  have d: "SplittableSuffix Example_2147483646"
    unfolding SplittableSuffix_def e by (simp add: IsDigitChar_def Example_2147483646_def)
  have g: "DecValue [0x30 :: ANSICHAR] = 0" by (simp add: DecValue_def)
  have h: "list_all IsDigitChar Example_9999999999 \<and> length Example_9999999999 \<le> 10"
    by (simp add: IsDigitChar_def Example_9999999999_def)
  have f: "DecValue Example_9999999999 = 9999999999"
    by (simp add: DecValue_def Example_9999999999_def)
  note t1 = MakeDetectNumber_suffix_split[where u = "0x5F" and ds = "[0x30]"
        and pre = Example_Text and rest = "[]" and cfg = Example_config
        and ft = FNAME_Add and P = FNamePool_Initialize and L = "length Example_Text_00"
        and s = Example_Text_00 and wL = "length Example_T_2147483648"
        and ws = Example_T_2147483648]
  note t2 = MakeDetectNumber_suffix_split[where cfg = Example_config
        and ft = FNAME_Find and P = FNamePool_Initialize and wL = "length Example_T_2147483647"
        and ws = Example_T_2147483647
        and wu = "0x5F" and wpre = "[0x54]" and wrest = "[]"
        and wds = Example_2147483646]
  note t3 = MakeDetectNumber_suffix_split[where ds = Example_9999999999]
  show ?thesis
    using a b c c' d h t1 t2 t3
    by (simp add: e f g)
qed


section \<open>Results as values\<close>

lemma rbind_Inr [simp]: "rbind (Inr x) f = f x"
  by (simp add: rbind_def)

lemma rbind_Inl [simp]: "rbind (Inl e) f = Inl e"
  by (simp add: rbind_def)

lemma rbind_eq_Inr: "rbind m f = Inr y \<longleftrightarrow> (\<exists>x. m = Inr x \<and> f x = Inr y)"
  by (cases m) simp_all

section \<open>Loading a corrupted entry\<close>

text \<open>
  Claim C8. \<open>StringLen\<close> is the length field at the head of the input. When it is
  \<open>MIN_int32\<close>, or when it (negated for a wide string) exceeds the maximum serialize
  size of the archive, the load sets the critical error of the archive and returns:
  the entry is unchanged and nothing but the four bytes of the length field was read.
  The result is \<open>Some\<close>: the operator returns its archive, no \<open>check\<close> stands on this
  path and nothing is written to the entry. An archive has a maximum serialize size
  when \<open>GetMaxSerializeSize\<close> is positive; zero or less means that the archive sets no
  maximum (the guard \<^verbatim>\<open>(MaxSerializeSize > 0) &&\<close> of the source).
\<close>

theorem Load_corrupted_length:
  assumes "StringLen = sint (Word32_of (take 4 (ArInput Ar)))"
    and "StringLen = MIN_int32 \<or> (0 < GetMaxSerializeSize Ar \<and> GetMaxSerializeSize Ar < \<bar>StringLen\<bar>)"
  shows "Load_FNameEntrySerialized cfg VER Ar E
      = Some (SetCriticalError (Ar\<lparr>ArInput := drop 4 (ArInput Ar)\<rparr>), E)"
  using assms
  by (auto simp: Load_FNameEntrySerialized_def Ar_Serialize_def Let_def GetMaxSerializeSize_def
      SetCriticalError_def MIN_int32_def)

definition Example_Archive :: "uint8 list \<Rightarrow> int \<Rightarrow> FArchive" where
  "Example_Archive bytes m =
     \<lparr>ArInput = bytes, ArIsCriticalError = False, ArMaxSerializeSize = m, ArUE4Ver = 0\<rparr>"

section \<open>Determinism of the batch save\<close>

text \<open>The eight bytes that \<open>SaveNameBatch\<close> appends to the hash data for one name.\<close>
definition NameHashRecord :: "config \<Rightarrow> FNamePool \<Rightarrow> FNameEntryId \<Rightarrow> uint8 list" where
  "NameHashRecord cfg P EntryId =
     (case Resolve (Entries P) (Handle_of_Id EntryId) of
        None \<Rightarrow> []
      | Some Entry \<Rightarrow> Bytes64 (GenerateLowerCaseHash cfg (MakeView Entry)))"

lemma SaveAnsiOrUtf16Name_extends:
  "SaveAnsiOrUtf16Name cfg Out v = Inr Out1 \<Longrightarrow> \<exists>x. Out1 = Out @ x"
  by (cases v) (auto simp: SaveAnsiOrUtf16Name_def rbind_eq_Inr AlignTo2_def Let_def
      split: if_splits)

lemma SaveNames_append:
  "SaveNames cfg P (A @ B) N H =
     (case SaveNames cfg P A N H of Inl e \<Rightarrow> Inl e | Inr (N1, H1) \<Rightarrow> SaveNames cfg P B N1 H1)"
  by (induction A arbitrary: N H) (auto split: option.splits sum.splits)

lemma SaveNames_extends:
  "SaveNames cfg P A N H = Inr (N1, H1) \<Longrightarrow>
   (\<exists>n. N1 = N @ n) \<and> H1 = H @ concat (map (NameHashRecord cfg P) A)"
proof (induction A arbitrary: N H)
  case Nil
  then show ?case by simp
next
  case (Cons a A)
  from Cons.prems obtain Entry Na Ha where
    r: "Resolve (Entries P) (Handle_of_Id a) = Some Entry"
    and n: "SaveAnsiOrUtf16Name cfg N (MakeView Entry) = Inr Na"
    and h: "AddValue64 H (GenerateLowerCaseHash cfg (MakeView Entry)) = Inr Ha"
    and rest: "SaveNames cfg P A Na Ha = Inr (N1, H1)"
    by (auto split: option.splits sum.splits)
  from h have Ha: "Ha = H @ NameHashRecord cfg P a"
    by (auto simp: AddValue64_def NameHashRecord_def r split: if_splits)
  from n obtain x where Na: "Na = N @ x" using SaveAnsiOrUtf16Name_extends by blast
  from Cons.IH[OF rest] show ?case by (auto simp: Ha Na)
qed

text \<open>
  Claim C6. \<open>SaveNameBatch\<close> empties both output arrays first, so its result does not
  depend on what they held: two calls on the same names and pool give the same
  name data and hash data, whatever the arrays held before. The output follows the
  input order: the hash data is the version followed by one record per name in
  input order, and the output for a sequence extended by more names extends the
  output for the sequence.
\<close>

theorem SaveNameBatch_deterministic:
  "SaveNameBatch cfg P Names N1 H1 = SaveNameBatch cfg P Names N2 H2
   \<and> (SaveNameBatch cfg P Names N1 H1 = Inr (ndat, hdat) \<longrightarrow>
        hdat = Bytes64 AlgorithmId @ concat (map (NameHashRecord cfg P) Names))
   \<and> (SaveNameBatch cfg P (Names @ More) N1 H1 = Inr (ndat', hdat') \<longrightarrow>
        (\<exists>ndat1 hdat1 ndat2 hdat2. SaveNameBatch cfg P Names N2 H2 = Inr (ndat1, hdat1)
            \<and> ndat' = ndat1 @ ndat2 \<and> hdat' = hdat1 @ hdat2))"
proof (intro conjI impI)
  show "SaveNameBatch cfg P Names N1 H1 = SaveNameBatch cfg P Names N2 H2"
    by (simp add: SaveNameBatch_def)
next
  assume "SaveNameBatch cfg P Names N1 H1 = Inr (ndat, hdat)"
  then have "SaveNames cfg P Names [] (Bytes64 AlgorithmId) = Inr (ndat, hdat)"
    by (simp add: SaveNameBatch_def AddValue64_def)
  from SaveNames_extends[OF this]
  show "hdat = Bytes64 AlgorithmId @ concat (map (NameHashRecord cfg P) Names)" by simp
next
  assume "SaveNameBatch cfg P (Names @ More) N1 H1 = Inr (ndat', hdat')"
  then have a: "SaveNames cfg P (Names @ More) [] (Bytes64 AlgorithmId) = Inr (ndat', hdat')"
    by (simp add: SaveNameBatch_def AddValue64_def)
  then obtain ndat1 hdat1 where b: "SaveNames cfg P Names [] (Bytes64 AlgorithmId) = Inr (ndat1, hdat1)"
    and c: "SaveNames cfg P More ndat1 hdat1 = Inr (ndat', hdat')"
    by (auto simp: SaveNames_append split: sum.splits)
  from SaveNames_extends[OF c] obtain ndat2 where "ndat' = ndat1 @ ndat2"
    "hdat' = hdat1 @ concat (map (NameHashRecord cfg P) More)" by blast
  with b show "\<exists>ndat1 hdat1 ndat2 hdat2. SaveNameBatch cfg P Names N2 H2 = Inr (ndat1, hdat1)
            \<and> ndat' = ndat1 @ ndat2 \<and> hdat' = hdat1 @ hdat2"
    by (auto simp: SaveNameBatch_def AddValue64_def)
qed



text \<open>An archive and an entry for concrete evaluations.\<close>
definition Example_Entry :: FNameEntrySerialized where
  "Example_Entry = \<lparr>SerbIsWide = False, SerAnsiName = [], SerWideName = [],
                     NonCasePreservingHash = 0, CasePreservingHash = 0\<rparr>"

theorem Load_corrupted_length_witness:
  "sint (Word32_of (take 4 (ArInput (Example_Archive [0, 0, 0, 0x80, 1, 2] 0)))) = MIN_int32
   \<and> Load_FNameEntrySerialized Example_config 0 (Example_Archive [0, 0, 0, 0x80, 1, 2] 0) Example_Entry
       = Some (SetCriticalError (Example_Archive [1, 2] 0), Example_Entry)
   \<and> 0 < GetMaxSerializeSize (Example_Archive [0x20, 0, 0, 0, 1, 2] 16)
   \<and> GetMaxSerializeSize (Example_Archive [0x20, 0, 0, 0, 1, 2] 16)
       < \<bar>sint (Word32_of (take 4 (ArInput (Example_Archive [0x20, 0, 0, 0, 1, 2] 16))))\<bar>
   \<and> Load_FNameEntrySerialized Example_config 0 (Example_Archive [0x20, 0, 0, 0, 1, 2] 16) Example_Entry
       = Some (SetCriticalError (Example_Archive [1, 2] 16), Example_Entry)
   \<and> Load_FNameEntrySerialized Example_config 0 (Example_Archive [0xE0, 0xFF, 0xFF, 0xFF, 1, 2] 16) Example_Entry
       = Some (SetCriticalError (Example_Archive [1, 2] 16), Example_Entry)
   \<and> ArIsCriticalError (SetCriticalError (Example_Archive [1, 2] 16))"
proof -
  have a: "sint (Word32_of [0, 0, 0, 0x80]) = MIN_int32"
    by (simp add: Word32_of_def MIN_int32_def)
  have b: "sint (Word32_of [0x20, 0, 0, 0]) = 32"
    by (simp add: Word32_of_def)
  have c: "sint (Word32_of [0xE0, 0xFF, 0xFF, 0xFF]) = - 32"
    by (simp add: Word32_of_def)
  show ?thesis
    using Load_corrupted_length[of MIN_int32 "Example_Archive [0, 0, 0, 0x80, 1, 2] 0"
          Example_config 0 Example_Entry]
      Load_corrupted_length[of 32 "Example_Archive [0x20, 0, 0, 0, 1, 2] 16"
          Example_config 0 Example_Entry]
      Load_corrupted_length[of "- 32" "Example_Archive [0xE0, 0xFF, 0xFF, 0xFF, 1, 2] 16"
          Example_config 0 Example_Entry]
    by (simp add: a b c Example_Archive_def GetMaxSerializeSize_def SetCriticalError_def)
qed

section \<open>A concrete pool\<close>

definition Example_None :: FNameStringView where
  "Example_None = AnsiView [0x4E, 0x6F, 0x6E, 0x65]"

text \<open>The pool after \<open>None\<close> was stored into the initialized pool.\<close>
definition Example_Pool :: FNamePool where
  "Example_Pool =
     \<lparr>Entries = \<lparr>CurrentBlock = 0, CurrentByteCursor = 12,
                 Blocks = [(0, 0) \<mapsto> \<lparr>ComparisonId = 0,
                    Header = \<lparr>bIsWide = False, LowercaseProbeHash = 0, Len = 4\<rparr>,
                    AnsiName = [0x4E, 0x6F, 0x6E, 0x65], WideName = []\<rparr>]\<rparr>,
      DisplayShards = (\<lambda>Index. Shard_Initialize)
        (720 := \<lparr>UsedSlots = 1, CapacityMask = 255,
                 Slots = (replicate 256 0)[75 := 0x20000000],
                 NumCreatedEntries = 0, NumCreatedWideEntries = 0\<rparr>),
      ComparisonShards = (\<lambda>Index. Shard_Initialize)
        (847 := \<lparr>UsedSlots = 1, CapacityMask = 255,
                 Slots = (replicate 256 0)[171 := 0x60000000],
                 NumCreatedEntries = 1, NumCreatedWideEntries = 0\<rparr>)\<rparr>"

lemma Example_hash_display:
  "FNameHash_of Example_config (AnsiView [0x4E, 0x6F, 0x6E, 0x65]) =
     \<lparr>ShardIndex = 720, UnmaskedSlotIndex = 929655115, SlotProbeHash = 0x20000000,
      EntryProbeHeader = \<lparr>bIsWide = False, LowercaseProbeHash = 0, Len = 4\<rparr>\<rparr>"
  by (simp add: Example_config_def FNameHash_of_def FNameHash_make_def GenerateHash_def
     ProbeHashMask_def EntryIdMask_def EntryIdBits_def FNameMaxBlockBits_def FNameBlockOffsetBits_def
     FNamePoolShards_def FNamePoolShardBits_def ProbeHashShift_def)

lemma Example_hash_comparison:
  "HashLowerCase Example_config (AnsiView [0x4E, 0x6F, 0x6E, 0x65]) =
     \<lparr>ShardIndex = 847, UnmaskedSlotIndex = 3541787307, SlotProbeHash = 0x60000000,
      EntryProbeHeader = \<lparr>bIsWide = False, LowercaseProbeHash = 0, Len = 4\<rparr>\<rparr>"
  by (simp add: Example_config_def FNameHash_of_def FNameHash_make_def GenerateHash_def
     ProbeHashMask_def EntryIdMask_def EntryIdBits_def FNameMaxBlockBits_def FNameBlockOffsetBits_def
     FNamePoolShards_def FNamePoolShardBits_def ProbeHashShift_def HashLowerCase_def ToLower_def)

lemma Example_config_simps:
  "WITH_CASE_PRESERVING_NAME Example_config" "Stride Example_config = 4"
  "DataOffset Example_config = 6" "NAME_SIZE Example_config = 1024"
  by (simp_all add: Example_config_def)

lemmas eval_defs = Store_def Store_Insert_def FNameValue_of_def
    Example_hash_display Example_hash_comparison Example_config_simps
    Shard_Find_def ProbeValue_def Probe_def FNamePool_Initialize_def Shard_Initialize_def
    FNamePoolInitialSlotsPerShard_def FNamePoolInitialSlotBits_def GetProbeStart_def ProbeLoop.simps
    Used_def GetId_def GetProbeHash_def Shard_Insert_def Create_def Allocate_def Align_def BlockSizeBytes_def
    FNameBlockOffsets_def FNameBlockOffsetBits_def u32_def BytesWithoutTerminator_def Example_None_def
    Let_def Id_of_Handle_def Handle_of_Id_def FNameSlot_make_def ProbeHashMask_def EntryIdMask_def
    EntryIdBits_def FNameMaxBlockBits_def ClaimSlot_def LoadFactorDivisor_def LoadFactorQuotient_def
    Capacity_def InsertExistingEntry_def Example_Pool_def ValuePredicate_def Resolve_def
    EntryEqualsValue_def MakeView_def IsWide_def GetNameLength_def Strncmp_eq_def Strnicmp_eq_def

lemma Store_Example_None:
  "Store Example_config FNamePool_Initialize Example_None = Inr (0, Example_Pool)"
  by (simp add: eval_defs)

lemma length_Bytes64 [simp]: "length (Bytes64 v) = 8"
  by (simp add: Bytes64_def)

theorem SaveNameBatch_deterministic_witness:
  "SaveNameBatch Example_config Example_Pool [0, 0] [0xAA] [0xBB, 0xBB]
     = Inr ([0, 4, 0x4E, 0x6F, 0x6E, 0x65, 0, 4, 0x4E, 0x6F, 0x6E, 0x65],
            Bytes64 AlgorithmId @ Bytes64 (GenerateLowerCaseHash Example_config Example_None)
              @ Bytes64 (GenerateLowerCaseHash Example_config Example_None))
   \<and> SaveNameBatch Example_config Example_Pool [0, 0] [] []
     = Inr ([0, 4, 0x4E, 0x6F, 0x6E, 0x65, 0, 4, 0x4E, 0x6F, 0x6E, 0x65],
            Bytes64 AlgorithmId @ Bytes64 (GenerateLowerCaseHash Example_config Example_None)
              @ Bytes64 (GenerateLowerCaseHash Example_config Example_None))
   \<and> Bytes64 AlgorithmId @ Bytes64 (GenerateLowerCaseHash Example_config Example_None)
              @ Bytes64 (GenerateLowerCaseHash Example_config Example_None)
     = Bytes64 AlgorithmId @ concat (map (NameHashRecord Example_config Example_Pool) [0, 0])
   \<and> (\<exists>ndat1 hdat1 ndat2 hdat2.
         SaveNameBatch Example_config Example_Pool [0] [] [] = Inr (ndat1, hdat1)
         \<and> [0, 4, 0x4E, 0x6F, 0x6E, 0x65, 0, 4, 0x4E, 0x6F, 0x6E, 0x65] = ndat1 @ ndat2
         \<and> Bytes64 AlgorithmId @ Bytes64 (GenerateLowerCaseHash Example_config Example_None)
              @ Bytes64 (GenerateLowerCaseHash Example_config Example_None) = hdat1 @ hdat2)"
proof -
  have e: "SaveNameBatch Example_config Example_Pool [0, 0] [0xAA] [0xBB, 0xBB]
     = Inr ([0, 4, 0x4E, 0x6F, 0x6E, 0x65, 0, 4, 0x4E, 0x6F, 0x6E, 0x65],
            Bytes64 AlgorithmId @ Bytes64 (GenerateLowerCaseHash Example_config Example_None)
              @ Bytes64 (GenerateLowerCaseHash Example_config Example_None))"
    by (simp add: SaveNameBatch_def AddValue64_def Example_Pool_def Resolve_def Handle_of_Id_def
        MakeView_def IsWide_def GetNameLength_def SaveAnsiOrUtf16Name_def FSerializedNameHeader_def
        Example_config_simps Example_None_def)
  show ?thesis
    using e
      SaveNameBatch_deterministic[of Example_config Example_Pool "[0, 0]" "[0xAA]" "[0xBB, 0xBB]"
        "[]" "[]" "[0, 4, 0x4E, 0x6F, 0x6E, 0x65, 0, 4, 0x4E, 0x6F, 0x6E, 0x65]"
        "Bytes64 AlgorithmId @ Bytes64 (GenerateLowerCaseHash Example_config Example_None)
              @ Bytes64 (GenerateLowerCaseHash Example_config Example_None)"]
      SaveNameBatch_deterministic[of Example_config Example_Pool "[0]" "[0xAA]" "[0xBB, 0xBB]"
        "[]" "[]" _ _ "[0]" "[0, 4, 0x4E, 0x6F, 0x6E, 0x65, 0, 4, 0x4E, 0x6F, 0x6E, 0x65]"
        "Bytes64 AlgorithmId @ Bytes64 (GenerateLowerCaseHash Example_config Example_None)
              @ Bytes64 (GenerateLowerCaseHash Example_config Example_None)"]
    by simp
qed

section \<open>The slot table of a shard\<close>

text \<open>
  The rest of the development is about the open-addressing table of a shard. A slot
  that is in use names an entry; the key of the slot is the name of that entry, folded
  to lower case in a comparison shard (\<open>KeyOf\<close>). The distance of a slot from the
  start of a probe is counted along the probe sequence (\<open>ProbeDist\<close>).
\<close>

definition KeyOf :: "ENameCase \<Rightarrow> FNameStringView \<Rightarrow> FNameStringView" where
  "KeyOf Sensitivity v = (case Sensitivity of CaseSensitive \<Rightarrow> v | IgnoreCase \<Rightarrow> LowerView v)"

lemma HashName_KeyOf: "HashName cfg Sensitivity v = FNameHash_of cfg (KeyOf Sensitivity v)"
  by (cases Sensitivity) (simp_all add: KeyOf_def HashLowerCase_def)

lemma EqualsSameDimensions_KeyOf:
  "EqualsSameDimensions Sensitivity a b \<longleftrightarrow> KeyOf Sensitivity a = KeyOf Sensitivity b"
  by (cases Sensitivity; cases a; cases b) (simp_all add: KeyOf_def Strncmp_eq_def Strnicmp_eq_def)

definition ProbeDist :: "nat \<Rightarrow> nat \<Rightarrow> nat \<Rightarrow> nat" where
  "ProbeDist cap s i = (i + cap - s) mod cap"

lemma ProbeDist_less: "0 < cap \<Longrightarrow> ProbeDist cap s i < cap"
  by (simp add: ProbeDist_def)

lemma ProbeDist_add:
  assumes "s < cap" "d < cap"
  shows "ProbeDist cap s ((s + d) mod cap) = d"
proof (cases "s + d < cap")
  case True
  then have e: "(s + d) mod cap = s + d" by (rule mod_less)
  have "s + d + cap - s = cap + d" by arith
  then have "ProbeDist cap s ((s + d) mod cap) = (cap + d) mod cap"
    by (simp only: ProbeDist_def e)
  also have "\<dots> = d mod cap" by (rule mod_add_self1)
  finally show ?thesis using assms by (simp only: mod_less)
next
  case False
  then have "(s + d) mod cap = (s + d - cap) mod cap"
    by (intro le_mod_geq) simp
  also have "\<dots> = s + d - cap" using assms by (intro mod_less) arith
  finally have e: "(s + d) mod cap = s + d - cap" .
  have "s + d - cap + cap - s = d" using False by arith
  then show ?thesis using assms by (simp only: ProbeDist_def e mod_less)
qed

lemma add_ProbeDist:
  assumes "s < cap" "i < cap"
  shows "(s + ProbeDist cap s i) mod cap = i"
proof (cases "s \<le> i")
  case True
  have e: "i + cap - s = cap + (i - s)" using True by arith
  have "ProbeDist cap s i = (cap + (i - s)) mod cap" by (simp only: ProbeDist_def e)
  also have "\<dots> = (i - s) mod cap" by (rule mod_add_self1)
  also have "\<dots> = i - s" using assms by (intro mod_less) arith
  finally have "s + ProbeDist cap s i = i" using True by arith
  then show ?thesis using assms by (simp only: mod_less)
next
  case False
  have "i + cap - s < cap" using False assms by arith
  then have "ProbeDist cap s i = i + cap - s" by (simp only: ProbeDist_def mod_less)
  then have "s + ProbeDist cap s i = cap + i" using False assms by arith
  then have "(s + ProbeDist cap s i) mod cap = (cap + i) mod cap" by (rule arg_cong)
  also have "\<dots> = i mod cap" by (rule mod_add_self1)
  finally show ?thesis using assms by (simp only: mod_less)
qed

lemma ProbeDist_inj:
  assumes "s < (cap::nat)" "d < cap" "d' < cap" "(s + d) mod cap = (s + d') mod cap"
  shows "d = d'"
proof -
  have "d = ProbeDist cap s ((s + d) mod cap)" using ProbeDist_add[OF assms(1,2)] by (rule sym)
  also have "\<dots> = ProbeDist cap s ((s + d') mod cap)" by (simp only: assms(4))
  also have "\<dots> = d'" by (rule ProbeDist_add[OF assms(1,3)])
  finally show ?thesis .
qed

lemma mask_mod: "x AND (2 ^ k - 1) = x mod 2 ^ (k::nat)" for x :: nat
proof -
  have "(2::nat) ^ k - 1 = mask k" by (simp add: mask_eq_exp_minus_1)
  then have "x AND (2 ^ k - 1) = take_bit k x" by (simp only: take_bit_eq_mask)
  then show ?thesis by (simp only: take_bit_eq_mod)
qed

lemma probe_next:
  assumes "n < 32" "s < 2 ^ n"
  shows "u32 (s + 1) AND (2 ^ n - 1) = (s + 1) mod 2 ^ n"
proof -
  have "(2::nat) ^ n < 2 ^ 32" using assms(1) by (intro power_strict_increasing) simp_all
  then have "s + 1 < 2 ^ 32" using assms(2) by linarith
  then have "u32 (s + 1) = s + 1" by (simp add: u32_def)
  then show ?thesis by (simp only: mask_mod)
qed

lemma ProbeLoop_first:
  assumes "length SlotArr = 2 ^ n" "n < 32" "i < 2 ^ n"
    and "\<not> Used (SlotArr ! i) \<or> Pred (SlotArr ! i) = Some True"
  shows "s < 2 ^ n \<Longrightarrow>
    \<forall>d < ProbeDist (2 ^ n) s i. Used (SlotArr ! ((s + d) mod 2 ^ n))
        \<and> Pred (SlotArr ! ((s + d) mod 2 ^ n)) = Some False \<Longrightarrow>
    ProbeLoop SlotArr (2 ^ n - 1) Pred s = Some i"
proof (induction "ProbeDist (2 ^ n) s i" arbitrary: s)
  case 0
  then have "s = i"
    using add_ProbeDist[of s "2 ^ n" i] assms(3) by simp
  then show ?case
    using assms by (subst ProbeLoop.simps) (auto simp: Let_def)
next
  case (Suc m)
  let ?cap = "(2::nat) ^ n"
  let ?s' = "(s + 1) mod ?cap"
  have s': "?s' < ?cap" by simp
  have m: "Suc m < ?cap" using Suc.hyps(2) ProbeDist_less[of ?cap s i] by simp
  have i: "i = (s + Suc m) mod ?cap"
    using add_ProbeDist[of s ?cap i] Suc.prems(1) assms(3) Suc.hyps(2) by simp
  then have "i = (?s' + m) mod ?cap" by (simp add: mod_simps)
  then have d': "ProbeDist ?cap ?s' i = m"
    using ProbeDist_add[OF s', of m] m by simp
  have here: "Used (SlotArr ! s)" "Pred (SlotArr ! s) = Some False"
    using Suc.prems(2)[rule_format, of 0] Suc.hyps(2) Suc.prems(1) by simp_all
  have rest: "\<forall>d < ProbeDist ?cap ?s' i. Used (SlotArr ! ((?s' + d) mod ?cap))
        \<and> Pred (SlotArr ! ((?s' + d) mod ?cap)) = Some False"
  proof (intro allI impI)
    fix d assume "d < ProbeDist ?cap ?s' i"
    then have "Suc d < ProbeDist ?cap s i" using d' Suc.hyps(2) by simp
    from Suc.prems(2)[rule_format, OF this]
    show "Used (SlotArr ! ((?s' + d) mod ?cap)) \<and> Pred (SlotArr ! ((?s' + d) mod ?cap)) = Some False"
      by (simp add: mod_simps)
  qed
  have "ProbeLoop SlotArr (?cap - 1) Pred ?s' = Some i"
    using Suc.hyps(1)[OF d'[symmetric] s' rest] .
  then show ?case
    using here Suc.prems(1) assms(1) probe_next[OF assms(2) Suc.prems(1)]
    by (subst ProbeLoop.simps) (simp add: Let_def)
qed

text \<open>
  The invariant of a slot array (\<open>table_inv\<close>): every slot in use names an entry of the
  allocator whose hash selects this shard and agrees with the probe hash of the slot and
  the header of the entry (\<open>slot_ok\<close>); all slots between the start of the probe of that
  entry and the slot are in use (\<open>path_used\<close>), so that a probe for the name reaches
  the slot; and no two slots in use have the same key.
\<close>

definition SlotEntry :: "FNameEntryAllocator \<Rightarrow> FNameSlot \<Rightarrow> FNameEntry option" where
  "SlotEntry A w = Resolve A (Handle_of_Id (GetId w))"

definition SlotKey :: "ENameCase \<Rightarrow> FNameEntryAllocator \<Rightarrow> FNameSlot \<Rightarrow> FNameStringView option" where
  "SlotKey Sensitivity A w = map_option (\<lambda>e. KeyOf Sensitivity (MakeView e)) (SlotEntry A w)"

definition slot_ok :: "config \<Rightarrow> ENameCase \<Rightarrow> FNameEntryAllocator \<Rightarrow> nat \<Rightarrow> FNameSlot \<Rightarrow> bool" where
  "slot_ok cfg Sensitivity A k w =
     (\<exists>e. SlotEntry A w = Some e
        \<and> unat (ShardIndex (HashName cfg Sensitivity (MakeView e))) = k
        \<and> GetProbeHash w = SlotProbeHash (HashName cfg Sensitivity (MakeView e))
        \<and> Header e = EntryProbeHeader (HashName cfg Sensitivity (MakeView e)))"

definition SlotStart :: "config \<Rightarrow> ENameCase \<Rightarrow> FNameEntryAllocator \<Rightarrow> nat \<Rightarrow> FNameSlot \<Rightarrow> nat" where
  "SlotStart cfg Sensitivity A cap w =
     (case SlotEntry A w of
        None \<Rightarrow> 0
      | Some e \<Rightarrow> unat (UnmaskedSlotIndex (HashName cfg Sensitivity (MakeView e))) mod cap)"

definition path_used :: "FNameSlot list \<Rightarrow> nat \<Rightarrow> nat \<Rightarrow> bool" where
  "path_used SlotArr s i =
     (\<forall>d < ProbeDist (length SlotArr) s i. Used (SlotArr ! ((s + d) mod length SlotArr)))"

definition table_inv :: "config \<Rightarrow> ENameCase \<Rightarrow> FNameEntryAllocator \<Rightarrow> nat \<Rightarrow> FNameSlot list \<Rightarrow> bool" where
  "table_inv cfg Sensitivity A k SlotArr =
     ((\<forall>i < length SlotArr. Used (SlotArr ! i) \<longrightarrow>
          slot_ok cfg Sensitivity A k (SlotArr ! i)
          \<and> path_used SlotArr (SlotStart cfg Sensitivity A (length SlotArr) (SlotArr ! i)) i)
      \<and> (\<forall>i < length SlotArr. \<forall>j < length SlotArr.
            Used (SlotArr ! i) \<and> Used (SlotArr ! j)
            \<and> SlotKey Sensitivity A (SlotArr ! i) = SlotKey Sensitivity A (SlotArr ! j)
            \<longrightarrow> i = j))"

lemma path_used_update:
  assumes "path_used SlotArr s j" "Used w" "i < length SlotArr"
  shows "path_used (SlotArr[i := w]) s j"
  unfolding path_used_def
proof (intro allI impI)
  fix d assume d: "d < ProbeDist (length (SlotArr[i := w])) s j"
  have "0 < length SlotArr" using assms(3) by arith
  then have p: "(s + d) mod length SlotArr < length SlotArr" by (rule mod_less_divisor)
  have "Used (SlotArr ! ((s + d) mod length SlotArr))"
    using assms(1) d by (simp add: path_used_def)
  then show "Used (SlotArr[i := w] ! ((s + d) mod length (SlotArr[i := w])))"
    using assms(2,3) p by (simp add: nth_list_update)
qed

lemma table_insert:
  assumes t: "table_inv cfg Sensitivity A k SlotArr"
    and i: "i < length SlotArr"
    and w: "Used w" "slot_ok cfg Sensitivity A k w"
    and p: "path_used SlotArr (SlotStart cfg Sensitivity A (length SlotArr) w) i"
    and fresh: "\<forall>j < length SlotArr. Used (SlotArr ! j) \<longrightarrow>
        SlotKey Sensitivity A (SlotArr ! j) \<noteq> SlotKey Sensitivity A w"
    and free: "\<not> Used (SlotArr ! i)"
  shows "table_inv cfg Sensitivity A k (SlotArr[i := w])"
  unfolding table_inv_def
proof (intro conjI allI impI)
  fix j assume j: "j < length (SlotArr[i := w])" and u: "Used (SlotArr[i := w] ! j)"
  show "slot_ok cfg Sensitivity A k (SlotArr[i := w] ! j)"
    using t i w j u by (cases "j = i") (auto simp: table_inv_def)
  show "path_used (SlotArr[i := w])
      (SlotStart cfg Sensitivity A (length (SlotArr[i := w])) (SlotArr[i := w] ! j)) j"
  proof (cases "j = i")
    case True
    then show ?thesis using path_used_update[OF p w(1) i] i by simp
  next
    case False
    then have "path_used SlotArr (SlotStart cfg Sensitivity A (length SlotArr) (SlotArr ! j)) j"
      using t j u by (simp add: table_inv_def)
    from path_used_update[OF this w(1) i] show ?thesis using False by simp
  qed
next
  fix a b assume a: "a < length (SlotArr[i := w])" and b: "b < length (SlotArr[i := w])"
    and h: "Used (SlotArr[i := w] ! a) \<and> Used (SlotArr[i := w] ! b) \<and>
      SlotKey Sensitivity A (SlotArr[i := w] ! a) = SlotKey Sensitivity A (SlotArr[i := w] ! b)"
  show "a = b"
  proof (cases "a = i")
    case ai: True
    show ?thesis
    proof (cases "b = i")
      case True
      then show ?thesis using ai by simp
    next
      case False
      then show ?thesis using ai h fresh b i by (auto simp: nth_list_update)
    qed
  next
    case ai: False
    show ?thesis
    proof (cases "b = i")
      case True
      then show ?thesis using ai h fresh a i by (auto simp: nth_list_update)
    next
      case False
      then show ?thesis using ai h t a b by (auto simp: table_inv_def)
    qed
  qed
qed

lemma find_first_free:
  assumes len: "length SlotArr = 2 ^ n" and n: "n < 32" and s: "s < 2 ^ n"
    and free: "\<exists>j < 2 ^ n. \<not> Used (SlotArr ! j)"
    and pred: "\<forall>p < 2 ^ n. Used (SlotArr ! p) \<longrightarrow> Pred (SlotArr ! p) = Some False"
  shows "\<exists>i < 2 ^ n. ProbeLoop SlotArr (2 ^ n - 1) Pred s = Some i
      \<and> \<not> Used (SlotArr ! i) \<and> path_used SlotArr s i"
proof -
  let ?cap = "(2::nat) ^ n"
  let ?P = "\<lambda>d. d < ?cap \<and> \<not> Used (SlotArr ! ((s + d) mod ?cap))"
  from free obtain j where j: "j < ?cap" "\<not> Used (SlotArr ! j)" by blast
  have "?P (ProbeDist ?cap s j)"
    using j s add_ProbeDist[of s ?cap j] ProbeDist_less[of ?cap s j] by simp
  then have ex: "\<exists>d. ?P d" by blast
  define d0 where "d0 = (LEAST d. ?P d)"
  have d0: "?P d0" unfolding d0_def using ex by (rule LeastI_ex)
  have least: "\<And>d. d < d0 \<Longrightarrow> \<not> ?P d" unfolding d0_def by (rule not_less_Least)
  define i where "i = (s + d0) mod ?cap"
  have i: "i < ?cap" by (simp add: i_def)
  have dist: "ProbeDist ?cap s i = d0"
    unfolding i_def using ProbeDist_add[OF s, of d0] d0 by simp
  have before: "Used (SlotArr ! ((s + d) mod ?cap))" if "d < d0" for d
    using least[OF that] that d0 by simp
  have "ProbeLoop SlotArr (?cap - 1) Pred s = Some i"
  proof (rule ProbeLoop_first[OF len n i _ s])
    show "\<not> Used (SlotArr ! i) \<or> Pred (SlotArr ! i) = Some True"
      using d0 by (simp add: i_def)
    show "\<forall>d<ProbeDist ?cap s i. Used (SlotArr ! ((s + d) mod ?cap))
        \<and> Pred (SlotArr ! ((s + d) mod ?cap)) = Some False"
      using before pred by (simp add: dist)
  qed
  moreover have "\<not> Used (SlotArr ! i)" using d0 by (simp add: i_def)
  moreover have "path_used SlotArr s i"
    unfolding path_used_def using before by (simp add: len dist)
  ultimately show ?thesis using i by blast
qed

lemma table_inv_slot_ok:
  "table_inv cfg Sensitivity A k SlotArr \<Longrightarrow> i < length SlotArr \<Longrightarrow> Used (SlotArr ! i) \<Longrightarrow>
   slot_ok cfg Sensitivity A k (SlotArr ! i)"
  by (simp add: table_inv_def)

lemma table_inv_path:
  "table_inv cfg Sensitivity A k SlotArr \<Longrightarrow> i < length SlotArr \<Longrightarrow> Used (SlotArr ! i) \<Longrightarrow>
   path_used SlotArr (SlotStart cfg Sensitivity A (length SlotArr) (SlotArr ! i)) i"
  by (simp add: table_inv_def)

lemma table_inv_distinct:
  "table_inv cfg Sensitivity A k SlotArr \<Longrightarrow> i < length SlotArr \<Longrightarrow> j < length SlotArr \<Longrightarrow>
   Used (SlotArr ! i) \<Longrightarrow> Used (SlotArr ! j) \<Longrightarrow>
   SlotKey Sensitivity A (SlotArr ! i) = SlotKey Sensitivity A (SlotArr ! j) \<Longrightarrow> i = j"
  unfolding table_inv_def by blast

lemma GetProbeStart_mod: "GetProbeStart u (2 ^ n - 1) = unat u mod 2 ^ n"
  by (simp only: GetProbeStart_def mask_mod)

lemma ValuePredicate_entry:
  assumes "SlotEntry A w = Some e"
  shows "ValuePredicate Sensitivity A v w =
     Some (GetProbeHash w = SlotProbeHash (Hash v) \<and> Header e = EntryProbeHeader (Hash v)
           \<and> KeyOf Sensitivity (MakeView e) = KeyOf Sensitivity (Name v))"
  using assms
  by (simp add: ValuePredicate_def SlotEntry_def EntryEqualsValue_def EqualsSameDimensions_KeyOf)

lemma slot_ok_entry:
  "slot_ok cfg Sensitivity A k w \<Longrightarrow> \<exists>e. SlotEntry A w = Some e"
  by (auto simp: slot_ok_def)

lemma probe_hit:
  assumes len: "length SlotArr = 2 ^ n" and n: "n < 32"
    and t: "table_inv cfg Sensitivity A k SlotArr"
    and i: "i < 2 ^ n" "Used (SlotArr ! i)"
    and e: "SlotEntry A (SlotArr ! i) = Some e"
    and key: "KeyOf Sensitivity (MakeView e) = KeyOf Sensitivity (Name v)"
    and hv: "Hash v = HashName cfg Sensitivity (Name v)"
  shows "ProbeLoop SlotArr (2 ^ n - 1) (ValuePredicate Sensitivity A v)
           (GetProbeStart (UnmaskedSlotIndex (Hash v)) (2 ^ n - 1)) = Some i"
proof -
  let ?cap = "(2::nat) ^ n"
  let ?s = "unat (UnmaskedSlotIndex (Hash v)) mod ?cap"
  have "HashName cfg Sensitivity (MakeView e) = FNameHash_of cfg (KeyOf Sensitivity (MakeView e))"
    by (rule HashName_KeyOf)
  also have "\<dots> = FNameHash_of cfg (KeyOf Sensitivity (Name v))" by (simp only: key)
  also have "\<dots> = HashName cfg Sensitivity (Name v)" by (rule HashName_KeyOf[symmetric])
  finally have he: "HashName cfg Sensitivity (MakeView e) = Hash v" by (simp only: hv)
  have ok: "slot_ok cfg Sensitivity A k (SlotArr ! i)"
    and pu: "path_used SlotArr (SlotStart cfg Sensitivity A ?cap (SlotArr ! i)) i"
    using t i len by (simp_all add: table_inv_def)
  have st: "SlotStart cfg Sensitivity A ?cap (SlotArr ! i) = ?s"
    using e he by (simp add: SlotStart_def)
  have s: "?s < ?cap" by simp
  have "ProbeLoop SlotArr (?cap - 1) (ValuePredicate Sensitivity A v) ?s = Some i"
  proof (rule ProbeLoop_first[OF len n i(1) _ s])
    have "ValuePredicate Sensitivity A v (SlotArr ! i) = Some True"
      using ok e he key by (simp add: ValuePredicate_entry slot_ok_def)
    then show "\<not> Used (SlotArr ! i) \<or> ValuePredicate Sensitivity A v (SlotArr ! i) = Some True"
      by simp
    show "\<forall>d<ProbeDist ?cap ?s i. Used (SlotArr ! ((?s + d) mod ?cap))
        \<and> ValuePredicate Sensitivity A v (SlotArr ! ((?s + d) mod ?cap)) = Some False"
    proof (intro allI impI)
      fix d assume d: "d < ProbeDist ?cap ?s i"
      let ?p = "(?s + d) mod ?cap"
      have dc: "d < ?cap" using d ProbeDist_less[of ?cap ?s i] by simp
      have p: "?p < ?cap" by simp
      have up: "Used (SlotArr ! ?p)"
        using pu d by (simp add: path_used_def st len)
      have "ProbeDist ?cap ?s ?p = d" using ProbeDist_add[OF s dc] .
      then have ne: "?p \<noteq> i" using d by auto
      have "slot_ok cfg Sensitivity A k (SlotArr ! ?p)"
        using table_inv_slot_ok[OF t _ up] p len by simp
      then obtain e' where e': "SlotEntry A (SlotArr ! ?p) = Some e'"
        using slot_ok_entry by blast
      have "SlotKey Sensitivity A (SlotArr ! ?p) \<noteq> SlotKey Sensitivity A (SlotArr ! i)"
        using table_inv_distinct[OF t _ _ up i(2)] p i(1) ne len by auto
      then have "KeyOf Sensitivity (MakeView e') \<noteq> KeyOf Sensitivity (Name v)"
        using e e' key by (simp add: SlotKey_def)
      then have "ValuePredicate Sensitivity A v (SlotArr ! ?p) = Some False"
        using e' by (simp add: ValuePredicate_entry)
      then show "Used (SlotArr ! ?p) \<and> ValuePredicate Sensitivity A v (SlotArr ! ?p) = Some False"
        using up by simp
    qed
  qed
  then show ?thesis by (simp only: GetProbeStart_mod)
qed

lemma probe_miss:
  assumes len: "length SlotArr = 2 ^ n" and n: "n < 32"
    and t: "table_inv cfg Sensitivity A k SlotArr"
    and free: "\<exists>j < 2 ^ n. \<not> Used (SlotArr ! j)"
    and miss: "\<forall>x \<in> set SlotArr. Used x \<longrightarrow>
        SlotKey Sensitivity A x \<noteq> Some (KeyOf Sensitivity (Name v))"
  shows "\<exists>i < 2 ^ n. ProbeLoop SlotArr (2 ^ n - 1) (ValuePredicate Sensitivity A v)
           (GetProbeStart (UnmaskedSlotIndex (Hash v)) (2 ^ n - 1)) = Some i
      \<and> \<not> Used (SlotArr ! i)
      \<and> path_used SlotArr (unat (UnmaskedSlotIndex (Hash v)) mod 2 ^ n) i"
proof -
  let ?cap = "(2::nat) ^ n"
  have "\<forall>p < ?cap. Used (SlotArr ! p) \<longrightarrow> ValuePredicate Sensitivity A v (SlotArr ! p) = Some False"
  proof (intro allI impI)
    fix p assume p: "p < ?cap" and up: "Used (SlotArr ! p)"
    have "slot_ok cfg Sensitivity A k (SlotArr ! p)"
      using table_inv_slot_ok[OF t _ up] p len by simp
    then obtain e' where e': "SlotEntry A (SlotArr ! p) = Some e'"
      using slot_ok_entry by blast
    have "SlotArr ! p \<in> set SlotArr" using p len by simp
    then have "KeyOf Sensitivity (MakeView e') \<noteq> KeyOf Sensitivity (Name v)"
      using miss up e' by (auto simp: SlotKey_def)
    then show "ValuePredicate Sensitivity A v (SlotArr ! p) = Some False"
      using e' by (simp add: ValuePredicate_entry)
  qed
  from find_first_free[OF len n _ free this, of "unat (UnmaskedSlotIndex (Hash v)) mod ?cap"]
  show ?thesis by (simp only: GetProbeStart_mod) simp
qed

definition alloc_extends :: "FNameEntryAllocator \<Rightarrow> FNameEntryAllocator \<Rightarrow> bool" where
  "alloc_extends A A' = (\<forall>h e. Blocks A h = Some e \<longrightarrow> Blocks A' h = Some e)"

lemma alloc_extends_refl [simp]: "alloc_extends A A"
  by (simp add: alloc_extends_def)

lemma alloc_extends_trans: "alloc_extends A B \<Longrightarrow> alloc_extends B C \<Longrightarrow> alloc_extends A C"
  by (simp add: alloc_extends_def)

lemma SlotEntry_extends:
  "alloc_extends A A' \<Longrightarrow> SlotEntry A w = Some e \<Longrightarrow> SlotEntry A' w = Some e"
  by (simp add: alloc_extends_def SlotEntry_def Resolve_def)

lemma slot_ok_extends:
  "alloc_extends A A' \<Longrightarrow> slot_ok cfg Sensitivity A k w \<Longrightarrow> slot_ok cfg Sensitivity A' k w"
  unfolding slot_ok_def using SlotEntry_extends by blast

lemma SlotKey_extends:
  "alloc_extends A A' \<Longrightarrow> slot_ok cfg Sensitivity A k w \<Longrightarrow>
   SlotKey Sensitivity A' w = SlotKey Sensitivity A w"
  unfolding slot_ok_def SlotKey_def using SlotEntry_extends by fastforce

lemma SlotStart_extends:
  "alloc_extends A A' \<Longrightarrow> slot_ok cfg Sensitivity A k w \<Longrightarrow>
   SlotStart cfg Sensitivity A' cap w = SlotStart cfg Sensitivity A cap w"
  unfolding slot_ok_def SlotStart_def using SlotEntry_extends by fastforce

lemma table_inv_extends:
  assumes "table_inv cfg Sensitivity A k SlotArr" "alloc_extends A A'"
  shows "table_inv cfg Sensitivity A' k SlotArr"
  unfolding table_inv_def
proof (intro conjI allI impI)
  fix i assume i: "i < length SlotArr" "Used (SlotArr ! i)"
  then have ok: "slot_ok cfg Sensitivity A k (SlotArr ! i)"
    and pu: "path_used SlotArr (SlotStart cfg Sensitivity A (length SlotArr) (SlotArr ! i)) i"
    using assms(1) by (simp_all add: table_inv_def)
  show "slot_ok cfg Sensitivity A' k (SlotArr ! i)"
    using ok assms(2) by (rule slot_ok_extends[rotated])
  show "path_used SlotArr (SlotStart cfg Sensitivity A' (length SlotArr) (SlotArr ! i)) i"
    using pu SlotStart_extends[OF assms(2) ok] by simp
next
  fix i j assume i: "i < length SlotArr" and j: "j < length SlotArr"
    and h: "Used (SlotArr ! i) \<and> Used (SlotArr ! j) \<and>
       SlotKey Sensitivity A' (SlotArr ! i) = SlotKey Sensitivity A' (SlotArr ! j)"
  have "slot_ok cfg Sensitivity A k (SlotArr ! i)" "slot_ok cfg Sensitivity A k (SlotArr ! j)"
    using assms(1) i j h by (simp_all add: table_inv_def)
  then have "SlotKey Sensitivity A (SlotArr ! i) = SlotKey Sensitivity A (SlotArr ! j)"
    using h SlotKey_extends[OF assms(2)] by simp
  then show "i = j" using table_inv_distinct[OF assms(1) i j] h by simp
qed

lemma filter_update_unused:
  assumes "i < length xs" "\<not> P (xs ! i)" "P w"
  shows "length (filter P (xs[i := w])) = Suc (length (filter P xs))"
    and "set (filter P (xs[i := w])) = insert w (set (filter P xs))"
proof -
  have a: "xs = take i xs @ xs ! i # drop (Suc i) xs"
    using assms(1) by (rule id_take_nth_drop)
  have b: "xs[i := w] = take i xs @ w # drop (Suc i) xs"
    using assms(1) by (rule upd_conv_take_nth_drop)
  have c: "filter P xs = filter P (take i xs) @ filter P (drop (Suc i) xs)"
    using assms(2) by (subst a) simp
  have d: "filter P (xs[i := w]) = filter P (take i xs) @ w # filter P (drop (Suc i) xs)"
    using assms(3) by (simp add: b)
  show "length (filter P (xs[i := w])) = Suc (length (filter P xs))"
    by (simp add: c d)
  show "set (filter P (xs[i := w])) = insert w (set (filter P xs))"
    unfolding c d by auto
qed

lemma filter_less_free:
  assumes "length (filter P xs) < length xs"
  shows "\<exists>j < length xs. \<not> P (xs ! j)"
proof (rule ccontr)
  assume "\<not> (\<exists>j < length xs. \<not> P (xs ! j))"
  then have "\<forall>x \<in> set xs. P x" by (auto simp: in_set_conv_nth)
  then have "filter P xs = xs" by (simp add: filter_id_conv)
  then show False using assms by simp
qed

lemma index_distinct_imp:
  assumes "\<forall>i < length xs. \<forall>j < length xs. P (xs ! i) \<and> P (xs ! j) \<and> f (xs ! i) = f (xs ! j) \<longrightarrow> i = j"
  shows "distinct (map f (filter P xs))"
  using assms
proof (induction xs)
  case Nil
  then show ?case by simp
next
  case (Cons x xs)
  have tl: "\<forall>i < length xs. \<forall>j < length xs. P (xs ! i) \<and> P (xs ! j) \<and> f (xs ! i) = f (xs ! j) \<longrightarrow> i = j"
  proof (intro allI impI)
    fix i j assume "i < length xs" "j < length xs" "P (xs ! i) \<and> P (xs ! j) \<and> f (xs ! i) = f (xs ! j)"
    then have "Suc i = Suc j"
      using Cons.prems[rule_format, of "Suc i" "Suc j"] by simp
    then show "i = j" by simp
  qed
  have hd: "f x \<notin> f ` set (filter P xs)" if "P x"
  proof
    assume "f x \<in> f ` set (filter P xs)"
    then obtain y where y: "y \<in> set xs" "P y" "f x = f y" by auto
    then obtain j where j: "j < length xs" "xs ! j = y" by (auto simp: in_set_conv_nth)
    then have "0 = Suc j"
      using Cons.prems[rule_format, of 0 "Suc j"] y that by simp
    then show False by simp
  qed
  show ?case using Cons.IH[OF tl] hd by simp
qed

subsection \<open>Slots, handles and the allocator\<close>

lemma EntryId_masks: "EntryIdMask = mask 29" "ProbeHashMask = NOT (mask 29)"
  by (simp_all add: EntryIdMask_def ProbeHashMask_def EntryIdBits_def FNameMaxBlockBits_def
      FNameBlockOffsetBits_def mask_eq_exp_minus_1)

lemma slot_eqI:
  assumes "GetId w = GetId w'" "GetProbeHash w = GetProbeHash w'"
  shows "w = w'"
proof (rule bit_word_eqI)
  fix n assume \<open>n < LENGTH(32)\<close>
  have a: "bit (w AND mask 29) n = bit (w' AND mask 29) n"
    using assms(1) by (simp only: GetId_def EntryId_masks)
  have b: "bit (w AND NOT (mask 29)) n = bit (w' AND NOT (mask 29)) n"
    using assms(2) by (simp only: GetProbeHash_def EntryId_masks)
  show "bit w n = bit w' n"
  proof (cases "n < 29")
    case True
    then show ?thesis using a by (simp add: bit_simps)
  next
    case False
    then show ?thesis using b \<open>n < LENGTH(32)\<close> by (simp add: bit_simps)
  qed
qed

lemma slot_or_id:
  fixes v ph :: uint32
  assumes v: "v AND NOT (mask 29) = 0" and p: "ph AND mask 29 = 0"
  shows "(v OR ph) AND mask 29 = v"
proof (rule bit_word_eqI)
  fix n assume n: "n < LENGTH(32)"
  have a: "\<not> bit (v AND NOT (mask 29)) n" using v by simp
  have b: "\<not> bit (ph AND mask 29) n" using p by simp
  from a have a': "bit v n \<Longrightarrow> n < 29" using n by (auto simp: bit_simps)
  from b have b': "bit ph n \<Longrightarrow> \<not> n < 29" by (auto simp: bit_simps)
  show "bit ((v OR ph) AND mask 29) n = bit v n"
    using a' b' by (auto simp: bit_simps)
qed

lemma slot_or_hash:
  fixes v ph :: uint32
  assumes v: "v AND NOT (mask 29) = 0" and p: "ph AND mask 29 = 0"
  shows "(v OR ph) AND NOT (mask 29) = ph"
proof (rule bit_word_eqI)
  fix n assume n: "n < LENGTH(32)"
  have a: "\<not> bit (v AND NOT (mask 29)) n" using v by simp
  have b: "\<not> bit (ph AND mask 29) n" using p by simp
  from a have a': "bit v n \<Longrightarrow> n < 29" using n by (auto simp: bit_simps)
  from b have b': "bit ph n \<Longrightarrow> \<not> n < 29" by (auto simp: bit_simps)
  show "bit ((v OR ph) AND NOT (mask 29)) n = bit ph n"
    using a' b' n by (auto simp: bit_simps)
qed

lemma FNameSlot_make_Inr:
  assumes "FNameSlot_make v ph = Inr w"
  shows "GetId w = v" "GetProbeHash w = ph" "Used w"
proof -
  from assms have w: "w = v OR ph" and v: "v AND NOT (mask 29) = 0" and p: "ph AND mask 29 = 0"
    and u: "Used w"
    by (auto simp: FNameSlot_make_def Let_def EntryId_masks split: if_splits)
  show "Used w" by (rule u)
  show "GetId w = v"
    unfolding GetId_def EntryId_masks w using v p by (rule slot_or_id)
  show "GetProbeHash w = ph"
    unfolding GetProbeHash_def EntryId_masks w using v p by (rule slot_or_hash)
qed

lemma GetId_0 [simp]: "GetId 0 = 0"
  by (simp add: GetId_def)

lemma not_Used_0 [simp]: "\<not> Used 0"
  by (simp add: Used_def)

lemma not_Used_iff: "\<not> Used w \<longleftrightarrow> w = 0"
  by (simp add: Used_def)

lemma drop_push_or:
  fixes b off :: uint32
  assumes ub: "unat b < 2 ^ 16" and uo: "unat off < 2 ^ 16"
  shows "drop_bit 16 (push_bit 16 b OR off) = b"
proof (rule bit_word_eqI)
  fix n assume n: "n < LENGTH(32)"
  have o: "\<not> bit off (16 + n)" using uo by (intro high_bit_clear[of off 16]) simp_all
  have bb: "bit b n \<Longrightarrow> n < 16" using bit_imp_lt[OF _ ub] by blast
  show "bit (drop_bit 16 (push_bit 16 b OR off)) n = bit b n"
    using o bb by (auto simp: bit_simps)
qed

lemma push_or_mask:
  fixes b off :: uint32
  assumes uo: "unat off < 2 ^ 16"
  shows "(push_bit 16 b OR off) AND mask 16 = off"
proof (rule bit_word_eqI)
  fix n assume n: "n < LENGTH(32)"
  have bb: "bit off n \<Longrightarrow> n < 16" using bit_imp_lt[OF _ uo] by blast
  show "bit ((push_bit 16 b OR off) AND mask 16) n = bit off n"
    using bb by (auto simp: bit_simps)
qed

lemma Handle_roundtrip:
  assumes "cb < 2 ^ 16" "off < 2 ^ 16"
  shows "Handle_of_Id (Id_of_Handle \<lparr>Block = of_nat cb, Offset = of_nat off\<rparr>)
       = \<lparr>Block = of_nat cb, Offset = of_nat off\<rparr>"
proof -
  let ?b = "of_nat cb :: uint32" and ?o = "of_nat off :: uint32"
  have ub: "unat ?b < 2 ^ 16" using assms(1) by (simp add: unsigned_of_nat take_bit_nat_eq_self)
  have uo: "unat ?o < 2 ^ 16" using assms(2) by (simp add: unsigned_of_nat take_bit_nat_eq_self)
  have m: "(of_nat FNameBlockOffsets - 1 :: uint32) = mask 16"
    by (simp add: FNameBlockOffsets_def FNameBlockOffsetBits_def mask_eq_exp_minus_1)
  have 1: "drop_bit 16 (push_bit 16 ?b OR ?o) = ?b"
    using ub uo by (rule drop_push_or)
  have 2: "(push_bit 16 ?b OR ?o) AND mask 16 = ?o"
    using uo by (rule push_or_mask)
  show ?thesis
    unfolding Handle_of_Id_def Id_of_Handle_def m FNameBlockOffsetBits_def
    by (simp only: FNameEntryHandle.select_convs 1 2)
qed

lemma Handle_of_Id_0: "Handle_of_Id 0 = \<lparr>Block = 0, Offset = 0\<rparr>"
  by (simp add: Handle_of_Id_def)

lemma Id_of_Handle_0: "Id_of_Handle \<lparr>Block = 0, Offset = 0\<rparr> = 0"
  by (simp add: Id_of_Handle_def)

text \<open>
  The allocator hands out handles in increasing order: every entry lies before the
  cursor (\<open>alloc_lt\<close>), so the next handle is fresh (\<open>alloc_inv\<close>). The configuration
  has a positive stride and data offset and blocks below \<open>2^32\<close> bytes (\<open>cfg_ok\<close>).
\<close>

definition cfg_ok :: "config \<Rightarrow> bool" where
  "cfg_ok cfg \<longleftrightarrow> 0 < Stride cfg \<and> 0 < DataOffset cfg \<and> BlockSizeBytes cfg < 2 ^ 32"

definition alloc_lt :: "config \<Rightarrow> FNameEntryAllocator \<Rightarrow> uint32 \<times> uint32 \<Rightarrow> bool" where
  "alloc_lt cfg A h \<longleftrightarrow>
     unat (fst h) < CurrentBlock A
     \<or> (unat (fst h) = CurrentBlock A \<and> unat (snd h) * Stride cfg < CurrentByteCursor A)"

definition alloc_inv :: "config \<Rightarrow> FNameEntryAllocator \<Rightarrow> bool" where
  "alloc_inv cfg A \<longleftrightarrow>
     CurrentBlock A < FNameMaxBlocks \<and> CurrentByteCursor A \<le> BlockSizeBytes cfg
     \<and> (\<forall>h. Blocks A h \<noteq> None \<longrightarrow> alloc_lt cfg A h)"

lemma Align_pos:
  assumes "0 < a" "0 < x"
  shows "0 < Align x a"
proof -
  have "a \<le> x + a - 1" using assms by arith
  then have "1 \<le> (x + a - 1) div a" using assms(1)
    by (metis div_le_mono div_self less_numeral_extra(3))
  then show ?thesis using assms(1) by (simp add: Align_def)
qed

lemma u32_id: "n < 2 ^ 32 \<Longrightarrow> u32 n = n"
  by (simp add: u32_def)

lemma Allocate_spec:
  assumes c: "cfg_ok cfg" and a: "alloc_inv cfg A" and b0: "0 < Bytes0"
    and r: "Allocate cfg Bytes0 A = Inr (h, A')"
  shows "\<not> alloc_lt cfg A (Block h, Offset h)
    \<and> alloc_lt cfg A' (Block h, Offset h)
    \<and> (\<forall>x. alloc_lt cfg A x \<longrightarrow> alloc_lt cfg A' x)
    \<and> CurrentBlock A' < FNameMaxBlocks \<and> CurrentByteCursor A' \<le> BlockSizeBytes cfg
    \<and> Blocks A' = Blocks A
    \<and> Handle_of_Id (Id_of_Handle h) = h
    \<and> (Id_of_Handle h = 0 \<longrightarrow> CurrentBlock A = 0 \<and> CurrentByteCursor A = 0)"
proof -
  let ?Bytes = "Align Bytes0 (Stride cfg)"
  let ?B = "BlockSizeBytes cfg"
  let ?C = "CurrentByteCursor A"
  let ?CB = "CurrentBlock A"
  have S: "0 < Stride cfg" and B32: "?B < 2 ^ 32" using c by (simp_all add: cfg_ok_def)
  have CB: "?CB < FNameMaxBlocks" and CB': "?C \<le> ?B" using a by (simp_all add: alloc_inv_def)
  have Bp: "0 < ?Bytes" using S b0 by (rule Align_pos)
  have sub: "u32 (?B + 2 ^ 32 - ?C) = ?B - ?C"
  proof -
    have "?B + 2 ^ 32 - ?C = (?B - ?C) + 2 ^ 32" using CB' by arith
    then have "u32 (?B + 2 ^ 32 - ?C) = (?B - ?C + 2 ^ 32) mod 2 ^ 32" by (simp only: u32_def)
    also have "\<dots> = (?B - ?C) mod 2 ^ 32" by (rule mod_add_self2)
    also have "\<dots> = ?B - ?C" using B32 by (intro mod_less) arith
    finally show ?thesis .
  qed
  then have sub': "u32 (?B + 4294967296 - ?C) = ?B - ?C" by simp
  from r have le: "?Bytes \<le> ?B"
    by (simp add: Allocate_def Let_def split: if_splits)
  show ?thesis
  proof (cases "?B - ?C < ?Bytes")
    case True
    have cb1: "u32 (Suc ?CB) = Suc ?CB"
      using CB by (intro u32_id) (simp add: FNameMaxBlocks_def FNameMaxBlockBits_def)
    from r True le have cbm: "Suc ?CB < FNameMaxBlocks"
      and h: "h = \<lparr>Block = of_nat (Suc ?CB), Offset = of_nat 0\<rparr>"
      and A': "A' = A\<lparr>CurrentBlock := Suc ?CB, CurrentByteCursor := u32 ?Bytes\<rparr>"
      by (auto simp: Allocate_def Let_def AllocateNewBlock_def rbind_def sub' cb1
          simp del: of_nat_Suc split: if_splits)
    have ub: "u32 ?Bytes = ?Bytes" using le B32 by (intro u32_id) simp
    have ucb: "unat (of_nat (Suc ?CB) :: uint32) = Suc ?CB"
      using cbm by (simp add: unsigned_of_nat take_bit_nat_eq_self FNameMaxBlocks_def
          FNameMaxBlockBits_def del: of_nat_Suc of_nat_add)
    have rt: "Handle_of_Id (Id_of_Handle h) = h"
      unfolding h using cbm
      by (intro Handle_roundtrip) (simp_all add: FNameMaxBlocks_def FNameMaxBlockBits_def)
    have nz: "Id_of_Handle h \<noteq> 0"
    proof
      assume "Id_of_Handle h = 0"
      then have "Handle_of_Id 0 = h" using rt by simp
      then have "\<lparr>Block = 0, Offset = 0\<rparr> = h" by (simp only: Handle_of_Id_0)
      then have "Block h = 0" by auto
      then have "unat (of_nat (Suc ?CB) :: uint32) = 0"
        by (simp add: h del: of_nat_Suc of_nat_add)
      then show False using ucb by simp
    qed
    show ?thesis
      using rt nz cbm le Bp
      by (auto simp: alloc_lt_def h A' ub ucb simp del: of_nat_Suc of_nat_add)
  next
    case False
    let ?off = "?C div Stride cfg"
    from r False le have m: "?C mod Stride cfg = 0" and o: "?off < FNameBlockOffsets"
      and h: "h = \<lparr>Block = of_nat ?CB, Offset = of_nat ?off\<rparr>"
      and A': "A' = A\<lparr>CurrentByteCursor := u32 (?C + ?Bytes)\<rparr>"
      by (auto simp: Allocate_def Let_def rbind_def sub' split: if_splits)
    have cle: "?C + ?Bytes \<le> ?B" using False CB' by arith
    have ub: "u32 (?C + ?Bytes) = ?C + ?Bytes" using cle B32 by (intro u32_id) simp
    have ucb: "unat (of_nat ?CB :: uint32) = ?CB"
      using CB by (simp add: unsigned_of_nat take_bit_nat_eq_self FNameMaxBlocks_def
          FNameMaxBlockBits_def)
    have uo: "unat (of_nat ?off :: uint32) = ?off"
      using o by (simp add: unsigned_of_nat take_bit_nat_eq_self FNameBlockOffsets_def
          FNameBlockOffsetBits_def)
    have oc: "?off * Stride cfg = ?C"
      using div_mult_mod_eq[of ?C "Stride cfg"] by (simp only: m add_0_right)
    have rt: "Handle_of_Id (Id_of_Handle h) = h"
      unfolding h using CB o
      by (intro Handle_roundtrip)
        (simp_all add: FNameMaxBlocks_def FNameMaxBlockBits_def FNameBlockOffsets_def
          FNameBlockOffsetBits_def)
    have z: "?CB = 0 \<and> ?C = 0" if "Id_of_Handle h = 0"
    proof -
      have "Handle_of_Id 0 = h" using rt that by simp
      then have "\<lparr>Block = 0, Offset = 0\<rparr> = h" by (simp only: Handle_of_Id_0)
      then have "Block h = 0" "Offset h = 0" by auto
      then have "unat (of_nat ?CB :: uint32) = 0" "unat (of_nat ?off :: uint32) = 0"
        by (simp_all add: h)
      then show ?thesis using ucb uo oc by simp
    qed
    have 1: "\<not> alloc_lt cfg A (Block h, Offset h)"
      by (simp add: alloc_lt_def h ucb uo oc)
    have 2: "alloc_lt cfg A' (Block h, Offset h)"
      using Bp by (simp add: alloc_lt_def h A' ub ucb uo oc)
    have 3: "\<forall>x. alloc_lt cfg A x \<longrightarrow> alloc_lt cfg A' x"
      by (auto simp: alloc_lt_def A' ub)
    show ?thesis
      using rt z 1 2 3 CB cle by (simp add: A' ub)
  qed
qed

lemma alloc_lt_cong:
  "CurrentBlock A' = CurrentBlock A \<Longrightarrow> CurrentByteCursor A' = CurrentByteCursor A \<Longrightarrow>
   alloc_lt cfg A' x = alloc_lt cfg A x"
  by (simp add: alloc_lt_def)

lemma Create_spec:
  assumes c: "cfg_ok cfg" and a: "alloc_inv cfg A"
    and r: "Create cfg NameV CompId Hdr A = Inr (h, A')"
  shows "Resolve A h = None"
    and "Blocks A' = (Blocks A)((Block h, Offset h) \<mapsto> StoreName NameV
            \<lparr>ComparisonId = (if WITH_CASE_PRESERVING_NAME cfg
                then (case CompId of Some c \<Rightarrow> c | None \<Rightarrow> Id_of_Handle h) else 0),
             Header = Hdr, AnsiName = [], WideName = []\<rparr>)"
    and "alloc_inv cfg A'" and "alloc_extends A A'"
    and "Handle_of_Id (Id_of_Handle h) = h"
    and "Id_of_Handle h = 0 \<Longrightarrow> Blocks A x = None"
proof -
  from r obtain A1 where al: "Allocate cfg (DataOffset cfg + BytesWithoutTerminator NameV) A = Inr (h, A1)"
    and A': "A' = A1\<lparr>Blocks := (Blocks A1)((Block h, Offset h) \<mapsto> StoreName NameV
            \<lparr>ComparisonId = (if WITH_CASE_PRESERVING_NAME cfg
                then (case CompId of Some c \<Rightarrow> c | None \<Rightarrow> Id_of_Handle h) else 0),
             Header = Hdr, AnsiName = [], WideName = []\<rparr>)\<rparr>"
    by (auto simp: Create_def Let_def rbind_def split: sum.splits)
  have pos: "0 < DataOffset cfg + BytesWithoutTerminator NameV"
    using c by (simp add: cfg_ok_def)
  note sp = Allocate_spec[OF c a pos al]
  have fresh: "\<not> alloc_lt cfg A (Block h, Offset h)" using sp by simp
  have lt': "alloc_lt cfg A1 (Block h, Offset h)" using sp by simp
  have mono: "\<And>x. alloc_lt cfg A x \<Longrightarrow> alloc_lt cfg A1 x" using sp by blast
  have bl: "Blocks A1 = Blocks A" using sp by simp
  have old: "\<And>x. Blocks A x \<noteq> None \<Longrightarrow> alloc_lt cfg A x" using a unfolding alloc_inv_def by blast
  have n: "Blocks A (Block h, Offset h) = None"
    using fresh old[of "(Block h, Offset h)"] by blast
  then show "Resolve A h = None" by (simp add: Resolve_def)
  show "Blocks A' = (Blocks A)((Block h, Offset h) \<mapsto> StoreName NameV
            \<lparr>ComparisonId = (if WITH_CASE_PRESERVING_NAME cfg
                then (case CompId of Some c \<Rightarrow> c | None \<Rightarrow> Id_of_Handle h) else 0),
             Header = Hdr, AnsiName = [], WideName = []\<rparr>)"
    by (simp add: A' bl)
  show "alloc_extends A A'"
    using n by (auto simp: alloc_extends_def A' bl)
  have eq: "\<And>x. alloc_lt cfg A' x = alloc_lt cfg A1 x"
    by (rule alloc_lt_cong) (simp_all add: A')
  show "alloc_inv cfg A'"
    unfolding alloc_inv_def
  proof (intro conjI allI impI)
    show "CurrentBlock A' < FNameMaxBlocks" using sp by (simp add: A')
    show "CurrentByteCursor A' \<le> BlockSizeBytes cfg" using sp by (simp add: A')
    fix x assume "Blocks A' x \<noteq> None"
    then have "x = (Block h, Offset h) \<or> Blocks A x \<noteq> None"
      by (auto simp: A' bl split: if_splits)
    then show "alloc_lt cfg A' x"
      using lt' mono old eq by blast
  qed
  show "Handle_of_Id (Id_of_Handle h) = h" using sp by simp
  show "Blocks A x = None" if "Id_of_Handle h = 0"
  proof (rule ccontr)
    assume "Blocks A x \<noteq> None"
    then have "alloc_lt cfg A x" by (rule old)
    moreover have "CurrentBlock A = 0 \<and> CurrentByteCursor A = 0" using sp that by simp
    ultimately show False by (simp add: alloc_lt_def)
  qed
qed

subsection \<open>Probing a shard\<close>

text \<open>
  The shape of a shard (\<open>shard_shape\<close>): the array has \<open>2^n\<close> slots, the mask is
  \<open>2^n - 1\<close>, and \<open>UsedSlots\<close> counts the slots in use.
\<close>

definition UsedSet :: "FNamePoolShard \<Rightarrow> FNameSlot set" where
  "UsedSet S = set (filter Used (Slots S))"

definition shard_shape :: "nat \<Rightarrow> FNamePoolShard \<Rightarrow> bool" where
  "shard_shape n S \<longleftrightarrow>
     length (Slots S) = 2 ^ n \<and> CapacityMask S = 2 ^ n - 1
     \<and> UsedSlots S = length (filter Used (Slots S))"

lemma UsedSet_iff: "w \<in> UsedSet S \<longleftrightarrow> (\<exists>i < length (Slots S). Slots S ! i = w \<and> Used w)"
  by (auto simp: UsedSet_def in_set_conv_nth)

lemma UsedSet_nth: "i < length (Slots S) \<Longrightarrow> Used (Slots S ! i) \<Longrightarrow> Slots S ! i \<in> UsedSet S"
  by (auto simp: UsedSet_iff)

lemma shard_free:
  assumes "shard_shape n S" "UsedSlots S < 2 ^ n"
  shows "\<exists>j < 2 ^ n. \<not> Used (Slots S ! j)"
proof -
  have "length (filter Used (Slots S)) < length (Slots S)"
    using assms by (simp add: shard_shape_def)
  from filter_less_free[OF this] show ?thesis using assms(1) by (simp add: shard_shape_def)
qed

lemma ProbeValue_total:
  assumes sh: "shard_shape n S" and n: "n < 32"
    and t: "table_inv cfg Sensitivity A k (Slots S)"
    and free: "UsedSlots S < 2 ^ n"
    and hv: "Hash v = HashName cfg Sensitivity (Name v)"
  shows "\<exists>i < 2 ^ n. ProbeValue Sensitivity A S v = Some i \<and>
      (if Used (Slots S ! i)
       then SlotKey Sensitivity A (Slots S ! i) = Some (KeyOf Sensitivity (Name v))
       else (\<forall>w \<in> UsedSet S. SlotKey Sensitivity A w \<noteq> Some (KeyOf Sensitivity (Name v)))
          \<and> path_used (Slots S) (unat (UnmaskedSlotIndex (Hash v)) mod 2 ^ n) i)"
proof (cases "\<exists>w \<in> UsedSet S. SlotKey Sensitivity A w = Some (KeyOf Sensitivity (Name v))")
  case True
  have len: "length (Slots S) = 2 ^ n" and msk: "CapacityMask S = 2 ^ n - 1"
    using sh by (simp_all add: shard_shape_def)
  from True obtain i where i: "i < length (Slots S)" "Used (Slots S ! i)"
    and k: "SlotKey Sensitivity A (Slots S ! i) = Some (KeyOf Sensitivity (Name v))"
    by (auto simp: UsedSet_iff)
  from k obtain e where e: "SlotEntry A (Slots S ! i) = Some e"
    and key: "KeyOf Sensitivity (MakeView e) = KeyOf Sensitivity (Name v)"
    by (auto simp: SlotKey_def)
  have i': "i < 2 ^ n" using i(1) len by simp
  have "ProbeValue Sensitivity A S v = Some i"
    unfolding ProbeValue_def Probe_def msk
    by (rule probe_hit[OF len n t i' i(2) e key hv])
  then show ?thesis using i' i(2) k by auto
next
  case False
  have len: "length (Slots S) = 2 ^ n" and msk: "CapacityMask S = 2 ^ n - 1"
    using sh by (simp_all add: shard_shape_def)
  have miss: "\<forall>x \<in> set (Slots S). Used x \<longrightarrow>
        SlotKey Sensitivity A x \<noteq> Some (KeyOf Sensitivity (Name v))"
    using False by (auto simp: UsedSet_def)
  from probe_miss[OF len n t shard_free[OF sh free] miss]
  obtain i where i: "i < 2 ^ n"
    "ProbeLoop (Slots S) (2 ^ n - 1) (ValuePredicate Sensitivity A v)
           (GetProbeStart (UnmaskedSlotIndex (Hash v)) (2 ^ n - 1)) = Some i"
    "\<not> Used (Slots S ! i)"
    "path_used (Slots S) (unat (UnmaskedSlotIndex (Hash v)) mod 2 ^ n) i"
    by blast
  have "ProbeValue Sensitivity A S v = Some i"
    unfolding ProbeValue_def Probe_def msk by (rule i(2))
  then show ?thesis using i False by auto
qed

lemma Shard_Find_spec:
  assumes sh: "shard_shape n S" and n: "n < 32"
    and t: "table_inv cfg Sensitivity A k (Slots S)"
    and free: "UsedSlots S < 2 ^ n"
    and hv: "Hash v = HashName cfg Sensitivity (Name v)"
  shows "\<exists>EntryId. Shard_Find Sensitivity A S v = Inr EntryId \<and>
      ((\<exists>w \<in> UsedSet S. SlotKey Sensitivity A w = Some (KeyOf Sensitivity (Name v))
            \<and> GetId w = EntryId)
       \<or> (EntryId = 0 \<and> (\<forall>w \<in> UsedSet S. SlotKey Sensitivity A w \<noteq> Some (KeyOf Sensitivity (Name v)))))"
proof -
  have len: "length (Slots S) = 2 ^ n" using sh by (simp add: shard_shape_def)
  from ProbeValue_total[OF sh n t free hv] obtain i where i: "i < 2 ^ n"
    "ProbeValue Sensitivity A S v = Some i"
    and c: "if Used (Slots S ! i)
       then SlotKey Sensitivity A (Slots S ! i) = Some (KeyOf Sensitivity (Name v))
       else (\<forall>w \<in> UsedSet S. SlotKey Sensitivity A w \<noteq> Some (KeyOf Sensitivity (Name v)))
          \<and> path_used (Slots S) (unat (UnmaskedSlotIndex (Hash v)) mod 2 ^ n) i"
    by blast
  have r: "Shard_Find Sensitivity A S v = Inr (GetId (Slots S ! i))"
    by (simp add: Shard_Find_def i(2))
  show ?thesis
  proof (cases "Used (Slots S ! i)")
    case True
    then have "Slots S ! i \<in> UsedSet S" using i(1) len by (intro UsedSet_nth) simp_all
    then show ?thesis using r c True by auto
  next
    case False
    then have "Slots S ! i = 0" by (simp add: not_Used_iff)
    then show ?thesis using r c False by auto
  qed
qed

subsection \<open>Growing a shard and claiming a slot\<close>

lemma pow2_less: "n < m \<Longrightarrow> (2::nat) ^ n < 2 ^ m"
  by (rule power_strict_increasing) simp_all

lemma pow2_le: "n \<le> m \<Longrightarrow> (2::nat) ^ n \<le> 2 ^ m"
  by (rule power_increasing) simp_all

lemma slot_ok_SlotStart:
  assumes "SlotEntry A w = Some e"
  shows "SlotStart cfg Sensitivity A cap w
      = unat (UnmaskedSlotIndex (HashName cfg Sensitivity (MakeView e))) mod cap"
  using assms by (simp add: SlotStart_def)

lemma UsedSet_update:
  assumes "i < length (Slots S)" "\<not> Used (Slots S ! i)" "Used w"
  shows "UsedSet (S\<lparr>Slots := (Slots S)[i := w], UsedSlots := u\<rparr>) = insert w (UsedSet S)"
  using filter_update_unused(2)[OF assms] by (simp add: UsedSet_def)

lemma GrowLoop_spec:
  assumes "shard_shape n S" "n < 32" "table_inv cfg Sensitivity A k (Slots S)"
    and "UsedSlots S + length (filter Used olds) < 2 ^ n"
    and "\<forall>w \<in> set olds. Used w \<longrightarrow> slot_ok cfg Sensitivity A k w"
    and "distinct (map (SlotKey Sensitivity A) (filter Used olds))"
    and "\<forall>w \<in> set olds. Used w \<longrightarrow> (\<forall>x \<in> UsedSet S. SlotKey Sensitivity A x \<noteq> SlotKey Sensitivity A w)"
  shows "\<exists>S'. GrowLoop cfg Sensitivity A olds S = Inr S' \<and> shard_shape n S'
      \<and> table_inv cfg Sensitivity A k (Slots S')
      \<and> UsedSet S' = UsedSet S \<union> set (filter Used olds)
      \<and> UsedSlots S' = UsedSlots S + length (filter Used olds)
      \<and> NumCreatedEntries S' = NumCreatedEntries S
      \<and> NumCreatedWideEntries S' = NumCreatedWideEntries S"
  using assms
proof (induction olds arbitrary: S)
  case Nil
  then show ?case by simp
next
  case (Cons w rest)
  show ?case
  proof (cases "Used w")
    case False
    have "\<exists>S'. GrowLoop cfg Sensitivity A rest S = Inr S' \<and> shard_shape n S'
      \<and> table_inv cfg Sensitivity A k (Slots S')
      \<and> UsedSet S' = UsedSet S \<union> set (filter Used rest)
      \<and> UsedSlots S' = UsedSlots S + length (filter Used rest)
      \<and> NumCreatedEntries S' = NumCreatedEntries S
      \<and> NumCreatedWideEntries S' = NumCreatedWideEntries S"
      using Cons.prems False by (intro Cons.IH) simp_all
    then show ?thesis using False by simp
  next
    case True
    have len: "length (Slots S) = 2 ^ n" and msk: "CapacityMask S = 2 ^ n - 1"
      and us: "UsedSlots S = length (filter Used (Slots S))"
      using Cons.prems(1) by (simp_all add: shard_shape_def)
    have ok: "slot_ok cfg Sensitivity A k w" using Cons.prems(5) True by simp
    then obtain e where e: "SlotEntry A w = Some e" by (auto simp: slot_ok_def)
    let ?H = "HashName cfg Sensitivity (MakeView e)"
    let ?s = "unat (UnmaskedSlotIndex ?H) mod 2 ^ n"
    have rh: "Rehash cfg Sensitivity A (GetId w) = Inr ?H"
      using e by (simp add: Rehash_def SlotEntry_def)
    have lt: "UsedSlots S < 2 ^ n" using Cons.prems(4) True by simp
    have s: "?s < 2 ^ n" by simp
    have pf: "\<forall>p < 2 ^ n. Used (Slots S ! p) \<longrightarrow> (\<lambda>Slot. Some False) (Slots S ! p) = Some False"
      by simp
    from find_first_free[OF len Cons.prems(2) s shard_free[OF Cons.prems(1) lt] pf]
    obtain J where J: "J < 2 ^ n"
      "ProbeLoop (Slots S) (2 ^ n - 1) (\<lambda>Slot. Some False) ?s = Some J"
      "\<not> Used (Slots S ! J)" "path_used (Slots S) ?s J"
      by blast
    have pr: "Probe S (UnmaskedSlotIndex ?H) (\<lambda>Slot. Some False) = Some J"
      unfolding Probe_def msk GetProbeStart_mod by (rule J(2))
    have Jl: "J < length (Slots S)" using J(1) len by simp
    define S1 where "S1 = S\<lparr>Slots := (Slots S)[J := w], UsedSlots := u32 (UsedSlots S + 1)\<rparr>"
    have step: "GrowLoop cfg Sensitivity A (w # rest) S = GrowLoop cfg Sensitivity A rest S1"
      using True rh pr by (simp add: S1_def)
    have "(2::nat) ^ n < 2 ^ 32" using Cons.prems(2) by (rule pow2_less)
    then have "u32 (UsedSlots S + 1) = UsedSlots S + 1"
      using lt by (intro u32_id) simp
    then have u1: "UsedSlots S1 = UsedSlots S + 1" by (simp add: S1_def)
    have l1: "length (Slots S1) = 2 ^ n" "CapacityMask S1 = 2 ^ n - 1"
      using len msk by (simp_all add: S1_def)
    have "length (filter Used (Slots S1)) = Suc (length (filter Used (Slots S)))"
      using filter_update_unused(1)[OF Jl J(3) True] by (simp add: S1_def)
    then have "UsedSlots S1 = length (filter Used (Slots S1))"
      using u1 us by simp
    then have sh1: "shard_shape n S1"
      using l1 unfolding shard_shape_def by blast
    have fresh: "\<forall>j < length (Slots S). Used (Slots S ! j) \<longrightarrow>
        SlotKey Sensitivity A (Slots S ! j) \<noteq> SlotKey Sensitivity A w"
    proof (intro allI impI)
      fix j assume "j < length (Slots S)" "Used (Slots S ! j)"
      then have "Slots S ! j \<in> UsedSet S" by (rule UsedSet_nth)
      then show "SlotKey Sensitivity A (Slots S ! j) \<noteq> SlotKey Sensitivity A w"
        using Cons.prems(7) True by simp
    qed
    have pu: "path_used (Slots S) (SlotStart cfg Sensitivity A (length (Slots S)) w) J"
      using J(4) by (simp add: slot_ok_SlotStart[OF e] len)
    have t1: "table_inv cfg Sensitivity A k (Slots S1)"
      using table_insert[OF Cons.prems(3) Jl True ok pu fresh J(3)] by (simp add: S1_def)
    have us1: "UsedSet S1 = insert w (UsedSet S)"
      unfolding S1_def using Jl J(3) True by (rule UsedSet_update)
    have d: "distinct (map (SlotKey Sensitivity A) (filter Used rest))"
      and nw: "SlotKey Sensitivity A w \<notin> SlotKey Sensitivity A ` set (filter Used rest)"
      using Cons.prems(6) True by simp_all
    have f1: "\<forall>w' \<in> set rest. Used w' \<longrightarrow>
        (\<forall>x \<in> UsedSet S1. SlotKey Sensitivity A x \<noteq> SlotKey Sensitivity A w')"
    proof (intro ballI impI)
      fix w' x assume w': "w' \<in> set rest" "Used w'" and x: "x \<in> UsedSet S1"
      show "SlotKey Sensitivity A x \<noteq> SlotKey Sensitivity A w'"
      proof (cases "x = w")
        case True
        then show ?thesis using nw w' by force
      next
        case False
        then have "x \<in> UsedSet S" using x us1 by simp
        then show ?thesis using Cons.prems(7) w' by simp
      qed
    qed
    have "\<exists>S'. GrowLoop cfg Sensitivity A rest S1 = Inr S' \<and> shard_shape n S'
      \<and> table_inv cfg Sensitivity A k (Slots S')
      \<and> UsedSet S' = UsedSet S1 \<union> set (filter Used rest)
      \<and> UsedSlots S' = UsedSlots S1 + length (filter Used rest)
      \<and> NumCreatedEntries S' = NumCreatedEntries S1
      \<and> NumCreatedWideEntries S' = NumCreatedWideEntries S1"
    proof (rule Cons.IH[OF sh1 Cons.prems(2) t1 _ _ d f1])
      show "UsedSlots S1 + length (filter Used rest) < 2 ^ n"
        using Cons.prems(4) True by (simp add: u1)
      show "\<forall>w\<in>set rest. Used w \<longrightarrow> slot_ok cfg Sensitivity A k w"
        using Cons.prems(5) by simp
    qed
    then obtain S' where S': "GrowLoop cfg Sensitivity A rest S1 = Inr S'" "shard_shape n S'"
      "table_inv cfg Sensitivity A k (Slots S')"
      "UsedSet S' = UsedSet S1 \<union> set (filter Used rest)"
      "UsedSlots S' = UsedSlots S1 + length (filter Used rest)"
      "NumCreatedEntries S' = NumCreatedEntries S1"
      "NumCreatedWideEntries S' = NumCreatedWideEntries S1"
      by blast
    have "UsedSet S' = UsedSet S \<union> set (filter Used (w # rest))"
      using S'(4) us1 True by simp
    moreover have "UsedSlots S' = UsedSlots S + length (filter Used (w # rest))"
      using S'(5) u1 True by simp
    moreover have "NumCreatedEntries S' = NumCreatedEntries S"
      "NumCreatedWideEntries S' = NumCreatedWideEntries S"
      using S'(6,7) by (simp_all add: S1_def)
    ultimately show ?thesis using S'(1,2,3) step by simp
  qed
qed

lemma table_inv_empty: "table_inv cfg Sensitivity A k (replicate m 0)"
  by (simp add: table_inv_def)

lemma Grow_spec:
  assumes sh: "shard_shape n S" and n: "n < 31"
    and t: "table_inv cfg Sensitivity A k (Slots S)"
  shows "\<exists>S'. Grow cfg Sensitivity A S = Inr S' \<and> shard_shape (Suc n) S'
      \<and> table_inv cfg Sensitivity A k (Slots S')
      \<and> UsedSet S' = UsedSet S \<and> UsedSlots S' = UsedSlots S
      \<and> NumCreatedEntries S' = NumCreatedEntries S
      \<and> NumCreatedWideEntries S' = NumCreatedWideEntries S"
proof -
  have len: "length (Slots S) = 2 ^ n" and msk: "CapacityMask S = 2 ^ n - 1"
    and us: "UsedSlots S = length (filter Used (Slots S))"
    using sh by (simp_all add: shard_shape_def)
  have p32: "(2::nat) ^ n < 2 ^ 32" "(2::nat) ^ Suc n < 2 ^ 32"
    by (rule pow2_less, use n in simp)+
  have "CapacityMask S + 1 = 2 ^ n" by (simp add: msk)
  then have cap: "Capacity S = 2 ^ n"
    using p32(1) by (simp add: Capacity_def u32_id)
  have "(2::nat) ^ n * 2 = 2 ^ Suc n" by simp
  then have new: "u32 (2 ^ n * 2) = 2 ^ Suc n"
    using p32(2) by (simp only: u32_id)
  have mk: "u32 (2 ^ Suc n + 2 ^ 32 - 1) = 2 ^ Suc n - 1"
  proof -
    have "(2::nat) ^ Suc n + 2 ^ 32 - 1 = (2 ^ Suc n - 1) + 2 ^ 32" by simp
    then have "u32 (2 ^ Suc n + 2 ^ 32 - 1) = ((2 ^ Suc n - 1) + 2 ^ 32) mod 2 ^ 32"
      by (simp only: u32_def)
    also have "\<dots> = (2 ^ Suc n - 1) mod 2 ^ 32" by (rule mod_add_self2)
    also have "\<dots> = 2 ^ Suc n - 1" using p32(2) by (intro mod_less) arith
    finally show ?thesis .
  qed
  define S0 where "S0 = S\<lparr>Slots := replicate (2 ^ Suc n) 0, UsedSlots := 0,
                 CapacityMask := 2 ^ Suc n - 1\<rparr>"
  have tk: "take (2 ^ n) (Slots S) = Slots S" using len by simp
  have g: "Grow cfg Sensitivity A S =
      rbind (GrowLoop cfg Sensitivity A (Slots S) S0)
           (\<lambda>S1. if UsedSlots S = UsedSlots S1 then Inr S1 else Inl CheckFailed)"
    unfolding Grow_def GrowTo_def Let_def cap new mk tk S0_def ..
  have sh0: "shard_shape (Suc n) S0" by (simp add: shard_shape_def S0_def)
  have t0: "table_inv cfg Sensitivity A k (Slots S0)"
    by (simp add: S0_def table_inv_empty)
  have e0: "UsedSet S0 = {}" by (simp add: UsedSet_def S0_def)
  have "length (filter Used (Slots S)) \<le> 2 ^ n"
    using length_filter_le[of Used "Slots S"] len by simp
  moreover have "(0::nat) < 2 ^ n" by simp
  ultimately have "length (filter Used (Slots S)) < 2 * 2 ^ n" by arith
  then have room: "UsedSlots S0 + length (filter Used (Slots S)) < 2 ^ Suc n"
    by (simp add: S0_def)
  have ok: "\<forall>w \<in> set (Slots S). Used w \<longrightarrow> slot_ok cfg Sensitivity A k w"
    using table_inv_slot_ok[OF t] by (auto simp: in_set_conv_nth)
  have d: "distinct (map (SlotKey Sensitivity A) (filter Used (Slots S)))"
    using t unfolding table_inv_def by (intro index_distinct_imp) blast
  have f: "\<forall>w \<in> set (Slots S). Used w \<longrightarrow>
      (\<forall>x \<in> UsedSet S0. SlotKey Sensitivity A x \<noteq> SlotKey Sensitivity A w)"
    by (simp add: e0)
  have n32: "Suc n < 32" using n by simp
  from GrowLoop_spec[OF sh0 n32 t0 room ok d f]
  obtain S' where S': "GrowLoop cfg Sensitivity A (Slots S) S0 = Inr S'"
    "shard_shape (Suc n) S'" "table_inv cfg Sensitivity A k (Slots S')"
    "UsedSet S' = UsedSet S0 \<union> set (filter Used (Slots S))"
    "UsedSlots S' = UsedSlots S0 + length (filter Used (Slots S))"
    "NumCreatedEntries S' = NumCreatedEntries S0"
    "NumCreatedWideEntries S' = NumCreatedWideEntries S0"
    by blast
  have u: "UsedSlots S' = UsedSlots S" using S'(5) us by (simp add: S0_def)
  have "Grow cfg Sensitivity A S = Inr S'" by (simp add: g S'(1) u)
  moreover have "UsedSet S' = UsedSet S"
    unfolding S'(4) e0 by (simp add: UsedSet_def)
  moreover have "NumCreatedEntries S' = NumCreatedEntries S"
    "NumCreatedWideEntries S' = NumCreatedWideEntries S"
    using S'(6,7) by (simp_all add: S0_def)
  ultimately show ?thesis using S'(2,3) u by blast
qed

lemma ClaimSlot_spec:
  assumes sh: "shard_shape n S" and n: "n \<le> 28" and load: "UsedSlots S * 10 < 9 * 2 ^ n"
    and t: "table_inv cfg Sensitivity A k (Slots S)"
    and i: "i < length (Slots S)" "\<not> Used (Slots S ! i)"
    and w: "Used w" "slot_ok cfg Sensitivity A k w"
    and p: "path_used (Slots S) (SlotStart cfg Sensitivity A (length (Slots S)) w) i"
    and fresh: "\<forall>x \<in> UsedSet S. SlotKey Sensitivity A x \<noteq> SlotKey Sensitivity A w"
  shows "\<exists>S' n'. ClaimSlot cfg Sensitivity A i w S = Inr S' \<and> n' \<le> Suc n
      \<and> shard_shape n' S' \<and> UsedSlots S' * 10 < 9 * 2 ^ n'
      \<and> table_inv cfg Sensitivity A k (Slots S')
      \<and> UsedSet S' = insert w (UsedSet S)
      \<and> NumCreatedEntries S' = NumCreatedEntries S
      \<and> NumCreatedWideEntries S' = NumCreatedWideEntries S"
proof -
  have len: "length (Slots S) = 2 ^ n" and msk: "CapacityMask S = 2 ^ n - 1"
    and us: "UsedSlots S = length (filter Used (Slots S))"
    using sh by (simp_all add: shard_shape_def)
  have p28: "(2::nat) ^ n \<le> 2 ^ 28" using n by (rule pow2_le)
  have lt: "UsedSlots S < 2 ^ n" using load by arith
  define S1 where "S1 = S\<lparr>Slots := (Slots S)[i := w], UsedSlots := u32 (UsedSlots S + 1)\<rparr>"
  have "u32 (UsedSlots S + 1) = UsedSlots S + 1"
    using lt p28 by (intro u32_id) simp
  then have u1: "UsedSlots S1 = UsedSlots S + 1" by (simp add: S1_def)
  have l1: "length (Slots S1) = 2 ^ n" "CapacityMask S1 = 2 ^ n - 1"
    using len msk by (simp_all add: S1_def)
  have "length (filter Used (Slots S1)) = Suc (length (filter Used (Slots S)))"
    using filter_update_unused(1)[OF i w(1)] by (simp add: S1_def)
  then have "UsedSlots S1 = length (filter Used (Slots S1))"
    using u1 us by simp
  then have sh1: "shard_shape n S1"
    using l1 unfolding shard_shape_def by blast
  have fr: "\<forall>j < length (Slots S). Used (Slots S ! j) \<longrightarrow>
        SlotKey Sensitivity A (Slots S ! j) \<noteq> SlotKey Sensitivity A w"
  proof (intro allI impI)
    fix j assume "j < length (Slots S)" "Used (Slots S ! j)"
    then have "Slots S ! j \<in> UsedSet S" by (rule UsedSet_nth)
    then show "SlotKey Sensitivity A (Slots S ! j) \<noteq> SlotKey Sensitivity A w"
      using fresh by simp
  qed
  have t1: "table_inv cfg Sensitivity A k (Slots S1)"
    using table_insert[OF t i(1) w p fr i(2)] by (simp add: S1_def)
  have us1: "UsedSet S1 = insert w (UsedSet S)"
    unfolding S1_def using i w(1) by (rule UsedSet_update)
  have nc: "NumCreatedEntries S1 = NumCreatedEntries S"
    "NumCreatedWideEntries S1 = NumCreatedWideEntries S"
    by (simp_all add: S1_def)
  have "CapacityMask S1 + 1 = 2 ^ n" by (simp add: l1)
  then have cap: "Capacity S1 = 2 ^ n"
    using p28 by (simp add: Capacity_def u32_id)
  have a: "u32 (UsedSlots S1 * LoadFactorDivisor) = (UsedSlots S + 1) * 10"
    unfolding u1 LoadFactorDivisor_def using lt p28 by (intro u32_id) simp
  have b: "u32 (LoadFactorQuotient * Capacity S1) = 9 * 2 ^ n"
    unfolding cap LoadFactorQuotient_def using p28 by (intro u32_id) simp
  have c: "ClaimSlot cfg Sensitivity A i w S =
      (if (UsedSlots S + 1) * 10 \<ge> 9 * 2 ^ n then Grow cfg Sensitivity A S1 else Inr S1)"
    unfolding ClaimSlot_def Let_def S1_def[symmetric] a b ..
  show ?thesis
  proof (cases "(UsedSlots S + 1) * 10 \<ge> 9 * 2 ^ n")
    case True
    have "n < 31" using n by simp
    from Grow_spec[OF sh1 this t1] obtain S' where S': "Grow cfg Sensitivity A S1 = Inr S'"
      "shard_shape (Suc n) S'" "table_inv cfg Sensitivity A k (Slots S')"
      "UsedSet S' = UsedSet S1" "UsedSlots S' = UsedSlots S1"
      "NumCreatedEntries S' = NumCreatedEntries S1"
      "NumCreatedWideEntries S' = NumCreatedWideEntries S1"
      by blast
    have "UsedSlots S' * 10 < 9 * 2 ^ Suc n" using S'(5) u1 lt by simp
    then show ?thesis
      using S' c True us1 nc by (intro exI[of _ S'] exI[of _ "Suc n"]) simp
  next
    case False
    then have "UsedSlots S1 * 10 < 9 * 2 ^ n" using u1 by simp
    then show ?thesis
      using c False sh1 t1 us1 nc by (intro exI[of _ S1] exI[of _ n]) simp
  qed
qed

definition shard_inv :: "config \<Rightarrow> ENameCase \<Rightarrow> FNameEntryAllocator \<Rightarrow> nat \<Rightarrow> nat
    \<Rightarrow> FNamePoolShard \<Rightarrow> bool" where
  "shard_inv cfg Sensitivity A k b S \<longleftrightarrow>
     (\<exists>n \<le> b. shard_shape n S \<and> UsedSlots S * 10 < 9 * 2 ^ n)
     \<and> table_inv cfg Sensitivity A k (Slots S)"

lemma shard_inv_mono:
  "shard_inv cfg Sensitivity A k b S \<Longrightarrow> b \<le> b' \<Longrightarrow> shard_inv cfg Sensitivity A k b' S"
  unfolding shard_inv_def by (meson le_trans)

lemma shard_inv_extends:
  "shard_inv cfg Sensitivity A k b S \<Longrightarrow> alloc_extends A A' \<Longrightarrow>
   shard_inv cfg Sensitivity A' k b S"
  unfolding shard_inv_def using table_inv_extends by blast


lemma UsedSet_slot_ok:
  assumes "table_inv cfg Sensitivity A k (Slots S)" "w \<in> UsedSet S"
  shows "slot_ok cfg Sensitivity A k w"
  using assms table_inv_slot_ok[OF assms(1)] by (auto simp: UsedSet_iff)

lemma UsedSet_key_inj:
  assumes "table_inv cfg Sensitivity A k (Slots S)" "w \<in> UsedSet S" "w' \<in> UsedSet S"
    "SlotKey Sensitivity A w = SlotKey Sensitivity A w'"
  shows "w = w'"
proof -
  from assms(2,3) obtain i j where "i < length (Slots S)" "Slots S ! i = w" "Used w"
    "j < length (Slots S)" "Slots S ! j = w'" "Used w'"
    by (auto simp: UsedSet_iff)
  then show ?thesis using table_inv_distinct[OF assms(1), of i j] assms(4) by auto
qed

lemma ViewIsWide_KeyOf [simp]: "ViewIsWide (KeyOf Sensitivity v) = ViewIsWide v"
  by (cases Sensitivity; cases v) (simp_all add: KeyOf_def)

lemma ViewLen_KeyOf [simp]: "ViewLen (KeyOf Sensitivity v) = ViewLen v"
  by (cases Sensitivity; cases v) (simp_all add: KeyOf_def)

lemma EntryProbeHeader_HashName:
  "bIsWide (EntryProbeHeader (HashName cfg Sensitivity v)) = ViewIsWide v"
  "Len (EntryProbeHeader (HashName cfg Sensitivity v)) = ViewLen v"
  by (simp_all add: HashName_KeyOf FNameHash_of_def FNameHash_make_def Let_def)

lemma MakeView_StoreName:
  assumes "bIsWide Hdr = ViewIsWide nm" "Len Hdr = ViewLen nm"
  shows "MakeView (StoreName nm \<lparr>ComparisonId = c, Header = Hdr, AnsiName = [], WideName = []\<rparr>) = nm"
  using assms by (cases nm) (simp_all add: MakeView_def IsWide_def GetNameLength_def)

lemma Header_StoreName [simp]: "Header (StoreName nm e) = Header e"
  by (cases nm) simp_all

lemma ComparisonId_StoreName [simp]: "ComparisonId (StoreName nm e) = ComparisonId e"
  by (cases nm) simp_all

lemma Create_err: "Create cfg nm CompId Hdr A = Inl e \<Longrightarrow> e = CheckFailed"
  by (auto simp: Create_def Allocate_def AllocateNewBlock_def rbind_def Let_def
      split: if_splits sum.splits)

lemma FNameSlot_make_err: "FNameSlot_make v ph = Inl e \<Longrightarrow> e = CheckFailed"
  by (auto simp: FNameSlot_make_def Let_def split: if_splits)

lemma Shard_Insert_cases:
  assumes c: "cfg_ok cfg" and a: "alloc_inv cfg A"
    and si: "shard_inv cfg Sensitivity A k b S" and b: "b \<le> 28"
    and hv: "Hash v = HashName cfg Sensitivity (Name v)"
    and k: "k = unat (ShardIndex (Hash v))"
  obtains (fail) "Shard_Insert cfg Sensitivity v A S = Inl CheckFailed"
  | (found) w where "Shard_Insert cfg Sensitivity v A S = Inr (GetId w, False, A, S)"
      "w \<in> UsedSet S" "SlotKey Sensitivity A w = Some (KeyOf Sensitivity (Name v))"
  | (created) h e w A' S' where
      "Shard_Insert cfg Sensitivity v A S = Inr (Id_of_Handle h, True, A', S')"
      "\<forall>x \<in> UsedSet S. SlotKey Sensitivity A x \<noteq> Some (KeyOf Sensitivity (Name v))"
      "Resolve A h = None" "Handle_of_Id (Id_of_Handle h) = h"
      "Blocks A' = (Blocks A)((Block h, Offset h) \<mapsto> e)"
      "alloc_inv cfg A'" "alloc_extends A A'"
      "MakeView e = Name v"
      "ComparisonId e = (if WITH_CASE_PRESERVING_NAME cfg
          then (case ValueComparisonId v of Some c \<Rightarrow> c | None \<Rightarrow> Id_of_Handle h) else 0)"
      "shard_inv cfg Sensitivity A' k (Suc b) S'" "UsedSet S' = insert w (UsedSet S)"
      "Used w" "GetId w = Id_of_Handle h" "SlotEntry A' w = Some e"
      "Id_of_Handle h = 0 \<longrightarrow> (\<forall>x. Blocks A x = None)"
proof -
  from si obtain n where n: "n \<le> b" and sh: "shard_shape n S"
    and load: "UsedSlots S * 10 < 9 * 2 ^ n"
    and t: "table_inv cfg Sensitivity A k (Slots S)"
    by (auto simp: shard_inv_def)
  have n32: "n < 32" and n28: "n \<le> 28" using n b by simp_all
  have len: "length (Slots S) = 2 ^ n" using sh by (simp add: shard_shape_def)
  have free: "UsedSlots S < 2 ^ n" using load by arith
  let ?key = "KeyOf Sensitivity (Name v)"
  from ProbeValue_total[OF sh n32 t free hv] obtain I where I: "I < 2 ^ n"
    and pv: "ProbeValue Sensitivity A S v = Some I"
    and cs: "if Used (Slots S ! I)
       then SlotKey Sensitivity A (Slots S ! I) = Some ?key
       else (\<forall>w \<in> UsedSet S. SlotKey Sensitivity A w \<noteq> Some ?key)
          \<and> path_used (Slots S) (unat (UnmaskedSlotIndex (Hash v)) mod 2 ^ n) I"
    by blast
  have Il: "I < length (Slots S)" using I len by simp
  show thesis
  proof (cases "Used (Slots S ! I)")
    case True
    have "Shard_Insert cfg Sensitivity v A S = Inr (GetId (Slots S ! I), False, A, S)"
      by (simp add: Shard_Insert_def pv True)
    moreover have "Slots S ! I \<in> UsedSet S" using Il True by (rule UsedSet_nth)
    moreover have "SlotKey Sensitivity A (Slots S ! I) = Some ?key" using cs True by simp
    ultimately show thesis by (rule found)
  next
    case False
    have miss: "\<forall>w \<in> UsedSet S. SlotKey Sensitivity A w \<noteq> Some ?key"
      and pu: "path_used (Slots S) (unat (UnmaskedSlotIndex (Hash v)) mod 2 ^ n) I"
      using cs False by simp_all
    let ?Hdr = "EntryProbeHeader (Hash v)"
    show thesis
    proof (cases "Create cfg (Name v) (ValueComparisonId v) ?Hdr A")
      case (Inl err)
      then have "err = CheckFailed" by (rule Create_err)
      then have "Shard_Insert cfg Sensitivity v A S = Inl CheckFailed"
        using Inl by (simp add: Shard_Insert_def pv False rbind_def)
      then show thesis by (rule fail)
    next
      case (Inr hA)
      then obtain h A1 where cr: "Create cfg (Name v) (ValueComparisonId v) ?Hdr A = Inr (h, A1)"
        by (cases hA) simp
      note sp = Create_spec[OF c a cr]
      define e where "e = StoreName (Name v)
            \<lparr>ComparisonId = (if WITH_CASE_PRESERVING_NAME cfg
                then (case ValueComparisonId v of Some c \<Rightarrow> c | None \<Rightarrow> Id_of_Handle h) else 0),
             Header = ?Hdr, AnsiName = [], WideName = []\<rparr>"
      have bl: "Blocks A1 = (Blocks A)((Block h, Offset h) \<mapsto> e)"
        using sp(2) by (simp add: e_def)
      have mv: "MakeView e = Name v"
        unfolding e_def by (rule MakeView_StoreName) (simp_all add: hv EntryProbeHeader_HashName)
      have he: "Header e = ?Hdr" by (simp add: e_def)
      have ce: "ComparisonId e = (if WITH_CASE_PRESERVING_NAME cfg
          then (case ValueComparisonId v of Some c \<Rightarrow> c | None \<Rightarrow> Id_of_Handle h) else 0)"
        by (simp add: e_def)
      show thesis
      proof (cases "FNameSlot_make (Id_of_Handle h) (SlotProbeHash (Hash v))")
        case (Inl err)
        then have "err = CheckFailed" by (rule FNameSlot_make_err)
        then have "Shard_Insert cfg Sensitivity v A S = Inl CheckFailed"
          using Inl by (simp add: Shard_Insert_def pv False rbind_def cr Let_def)
        then show thesis by (rule fail)
      next
        case (Inr w)
        note w = FNameSlot_make_Inr[OF Inr]
        have se: "SlotEntry A1 w = Some e"
          by (simp add: SlotEntry_def w(1) sp(5) Resolve_def bl)
        have ok: "slot_ok cfg Sensitivity A1 k w"
          unfolding slot_ok_def using se mv he w(2) hv k by auto
        have t1: "table_inv cfg Sensitivity A1 k (Slots S)"
          using t sp(4) by (rule table_inv_extends)
        have st: "SlotStart cfg Sensitivity A1 (length (Slots S)) w
            = unat (UnmaskedSlotIndex (Hash v)) mod 2 ^ n"
          by (simp add: slot_ok_SlotStart[OF se] mv len hv[symmetric])
        have kw: "SlotKey Sensitivity A1 w = Some ?key"
          by (simp add: SlotKey_def se mv)
        have fresh: "\<forall>x \<in> UsedSet S. SlotKey Sensitivity A1 x \<noteq> SlotKey Sensitivity A1 w"
        proof
          fix x assume x: "x \<in> UsedSet S"
          have "slot_ok cfg Sensitivity A k x" using t x by (rule UsedSet_slot_ok)
          then have "SlotKey Sensitivity A1 x = SlotKey Sensitivity A x"
            using sp(4) by (intro SlotKey_extends)
          then show "SlotKey Sensitivity A1 x \<noteq> SlotKey Sensitivity A1 w"
            using miss x kw by simp
        qed
        from ClaimSlot_spec[OF sh n28 load t1 Il False w(3) ok _ fresh] pu st
        obtain S1 n' where S1: "ClaimSlot cfg Sensitivity A1 I w S = Inr S1" "n' \<le> Suc n"
          "shard_shape n' S1" "UsedSlots S1 * 10 < 9 * 2 ^ n'"
          "table_inv cfg Sensitivity A1 k (Slots S1)"
          "UsedSet S1 = insert w (UsedSet S)"
          by auto
        define S' where "S' = S1\<lparr>NumCreatedEntries := u32 (NumCreatedEntries S1 + 1),
                             NumCreatedWideEntries :=
                               u32 (NumCreatedWideEntries S1
                                    + (if ViewIsWide (Name v) then 1 else 0))\<rparr>"
        have r: "Shard_Insert cfg Sensitivity v A S = Inr (Id_of_Handle h, True, A1, S')"
          by (simp add: Shard_Insert_def pv False rbind_def cr Let_def Inr S1(1) S'_def)
        have sh': "shard_shape n' S'" using S1(3) by (simp add: shard_shape_def S'_def)
        have "n' \<le> Suc b" using S1(2) n by simp
        moreover have "UsedSlots S' * 10 < 9 * 2 ^ n'" using S1(4) by (simp add: S'_def)
        moreover have "table_inv cfg Sensitivity A1 k (Slots S')" using S1(5) by (simp add: S'_def)
        ultimately have si': "shard_inv cfg Sensitivity A1 k (Suc b) S'"
          using sh' unfolding shard_inv_def by blast
        have us': "UsedSet S' = insert w (UsedSet S)"
          using S1(6) by (simp add: UsedSet_def S'_def)
        have z: "Id_of_Handle h = 0 \<longrightarrow> (\<forall>x. Blocks A x = None)"
          using sp(6) by blast
        show thesis
          by (rule created[OF r miss sp(1) sp(5) bl sp(3) sp(4) mv ce si' us' w(3) w(1) se z])
      qed
    qed
  qed
qed

section \<open>Growth of a shard\<close>

lemma Shard_Find_present:
  assumes sh: "shard_shape n S" and n: "n < 32"
    and t: "table_inv cfg Sensitivity A k (Slots S)"
    and free: "UsedSlots S < 2 ^ n"
    and hv: "Hash v = HashName cfg Sensitivity (Name v)"
    and w: "w \<in> UsedSet S" "SlotKey Sensitivity A w = Some (KeyOf Sensitivity (Name v))"
  shows "Shard_Find Sensitivity A S v = Inr (GetId w)"
proof -
  from Shard_Find_spec[OF sh n t free hv] obtain EntryId where
    r: "Shard_Find Sensitivity A S v = Inr EntryId"
    and c: "(\<exists>w \<in> UsedSet S. SlotKey Sensitivity A w = Some (KeyOf Sensitivity (Name v))
            \<and> GetId w = EntryId)
       \<or> (EntryId = 0 \<and> (\<forall>w \<in> UsedSet S. SlotKey Sensitivity A w \<noteq> Some (KeyOf Sensitivity (Name v))))"
    by blast
  from c w obtain w' where w': "w' \<in> UsedSet S"
    "SlotKey Sensitivity A w' = Some (KeyOf Sensitivity (Name v))" "GetId w' = EntryId"
    by blast
  have "w' = w" using t w'(1) w(1) by (rule UsedSet_key_inj) (simp add: w'(2) w(2))
  then show ?thesis using r w'(3) by simp
qed

lemma Shard_Find_absent:
  assumes sh: "shard_shape n S" and n: "n < 32"
    and t: "table_inv cfg Sensitivity A k (Slots S)"
    and free: "UsedSlots S < 2 ^ n"
    and hv: "Hash v = HashName cfg Sensitivity (Name v)"
    and w: "\<forall>w \<in> UsedSet S. SlotKey Sensitivity A w \<noteq> Some (KeyOf Sensitivity (Name v))"
  shows "Shard_Find Sensitivity A S v = Inr 0"
  using Shard_Find_spec[OF sh n t free hv] w by auto

lemma table_inv_distinct_slots:
  assumes "table_inv cfg Sensitivity A k SlotArr"
  shows "distinct (filter Used SlotArr)"
proof -
  have "distinct (map (SlotKey Sensitivity A) (filter Used SlotArr))"
    using assms unfolding table_inv_def by (intro index_distinct_imp) blast
  then show ?thesis by (simp add: distinct_map)
qed

text \<open>
  Claim C7. \<open>Grow\<close> on a shard of \<open>2^n\<close> slots (\<open>n < 31\<close>, so that the doubled capacity
  is a 32-bit number) whose array fulfills the invariant returns a shard, the \<open>check\<close>
  on the number of used slots holds, and in the shard it returns: the array has
  \<open>2^(n+1)\<close> slots and fulfills the invariant again (so the statement applies to every
  later growth as well); the number of used slots is the one before; the slots in use
  are those that were in use before, each of them once; a lookup of a name whose slot
  was in the shard before returns the identifier of that slot; and, when the shard
  had a free slot before (so that a lookup in it returns), every lookup returns what it
  returned before. The values looked up carry the hash of their name, as
  \<open>FNameValue\<close> computes it.
\<close>

theorem Grow_preserves:
  assumes "shard_shape n S" and "n < 31" and "table_inv cfg Sensitivity A k (Slots S)"
  shows "\<exists>S'. Grow cfg Sensitivity A S = Inr S'
      \<and> shard_shape (Suc n) S' \<and> table_inv cfg Sensitivity A k (Slots S')
      \<and> UsedSlots S' = UsedSlots S
      \<and> length (filter Used (Slots S')) = length (filter Used (Slots S))
      \<and> set (filter Used (Slots S')) = set (filter Used (Slots S))
      \<and> distinct (filter Used (Slots S'))
      \<and> (\<forall>v. Hash v = HashName cfg Sensitivity (Name v) \<longrightarrow>
            (\<forall>w \<in> set (filter Used (Slots S)).
               SlotKey Sensitivity A w = Some (KeyOf Sensitivity (Name v)) \<longrightarrow>
               Shard_Find Sensitivity A S' v = Inr (GetId w))
            \<and> (UsedSlots S < 2 ^ n \<longrightarrow>
                 Shard_Find Sensitivity A S' v = Shard_Find Sensitivity A S v))"
proof -
  from Grow_spec[OF assms] obtain S' where S': "Grow cfg Sensitivity A S = Inr S'"
    "shard_shape (Suc n) S'" "table_inv cfg Sensitivity A k (Slots S')"
    "UsedSet S' = UsedSet S" "UsedSlots S' = UsedSlots S"
    by blast
  have n32: "n < 32" "Suc n < 32" using assms(2) by simp_all
  have us: "UsedSlots S = length (filter Used (Slots S))"
    "UsedSlots S' = length (filter Used (Slots S'))"
    using assms(1) S'(2) by (simp_all add: shard_shape_def)
  have len: "length (Slots S) = 2 ^ n" using assms(1) by (simp add: shard_shape_def)
  have "length (filter Used (Slots S)) \<le> length (Slots S)" by (rule length_filter_le)
  then have "UsedSlots S \<le> 2 ^ n" unfolding us(1) len .
  moreover have "(0::nat) < 2 ^ n" by simp
  ultimately have "UsedSlots S < 2 * 2 ^ n" by arith
  then have free': "UsedSlots S' < 2 ^ Suc n" using S'(5) by simp
  have find: "(\<forall>w \<in> set (filter Used (Slots S)).
               SlotKey Sensitivity A w = Some (KeyOf Sensitivity (Name v)) \<longrightarrow>
               Shard_Find Sensitivity A S' v = Inr (GetId w))
            \<and> (UsedSlots S < 2 ^ n \<longrightarrow>
                 Shard_Find Sensitivity A S' v = Shard_Find Sensitivity A S v)"
    if hv: "Hash v = HashName cfg Sensitivity (Name v)" for v
  proof (intro conjI ballI impI)
    fix w assume w: "w \<in> set (filter Used (Slots S))"
      "SlotKey Sensitivity A w = Some (KeyOf Sensitivity (Name v))"
    then have "w \<in> UsedSet S'" using S'(4) by (simp add: UsedSet_def)
    then show "Shard_Find Sensitivity A S' v = Inr (GetId w)"
      using w(2) by (intro Shard_Find_present[OF S'(2) n32(2) S'(3) free' hv])
  next
    assume free: "UsedSlots S < 2 ^ n"
    show "Shard_Find Sensitivity A S' v = Shard_Find Sensitivity A S v"
    proof (cases "\<exists>w \<in> UsedSet S. SlotKey Sensitivity A w = Some (KeyOf Sensitivity (Name v))")
      case True
      then obtain w where w: "w \<in> UsedSet S"
        "SlotKey Sensitivity A w = Some (KeyOf Sensitivity (Name v))" by blast
      have "Shard_Find Sensitivity A S v = Inr (GetId w)"
        using w by (intro Shard_Find_present[OF assms(1) n32(1) assms(3) free hv])
      moreover have "Shard_Find Sensitivity A S' v = Inr (GetId w)"
        using w S'(4) by (intro Shard_Find_present[OF S'(2) n32(2) S'(3) free' hv]) simp_all
      ultimately show ?thesis by simp
    next
      case False
      then have a: "\<forall>w \<in> UsedSet S. SlotKey Sensitivity A w \<noteq> Some (KeyOf Sensitivity (Name v))"
        by blast
      have "Shard_Find Sensitivity A S v = Inr 0"
        using a by (intro Shard_Find_absent[OF assms(1) n32(1) assms(3) free hv])
      moreover have "Shard_Find Sensitivity A S' v = Inr 0"
        using a S'(4) by (intro Shard_Find_absent[OF S'(2) n32(2) S'(3) free' hv]) simp
      ultimately show ?thesis by simp
    qed
  qed
  have "length (filter Used (Slots S')) = length (filter Used (Slots S))"
    using us S'(5) by simp
  moreover have "set (filter Used (Slots S')) = set (filter Used (Slots S))"
    using S'(4) by (simp add: UsedSet_def)
  moreover have "distinct (filter Used (Slots S'))"
    using S'(3) by (rule table_inv_distinct_slots)
  ultimately show ?thesis using S'(1,2,3,5) find by blast
qed

text \<open>The comparison shard of the concrete pool that holds \<open>None\<close>.\<close>

lemma table_inv_single:
  assumes i: "i < m" and w: "Used w" "slot_ok cfg Sensitivity A k w"
    and st: "SlotStart cfg Sensitivity A m w = i"
  shows "table_inv cfg Sensitivity A k ((replicate m 0)[i := w])"
proof (rule table_insert[OF table_inv_empty _ w])
  show "i < length (replicate m 0)" using i by simp
  have "ProbeDist m i i = 0" using i by (simp add: ProbeDist_def)
  then show "path_used (replicate m 0) (SlotStart cfg Sensitivity A (length (replicate m 0)) w) i"
    by (simp add: path_used_def st)
  show "\<forall>j<length (replicate m 0). Used (replicate m 0 ! j) \<longrightarrow>
      SlotKey Sensitivity A (replicate m 0 ! j) \<noteq> SlotKey Sensitivity A w"
    by simp
  show "\<not> Used (replicate m 0 ! i)" using i by simp
qed

definition Example_Shard :: FNamePoolShard where
  "Example_Shard = \<lparr>UsedSlots = 1, CapacityMask = 255,
                 Slots = (replicate 256 0)[171 := 0x60000000],
                 NumCreatedEntries = 1, NumCreatedWideEntries = 0\<rparr>"

lemma Example_Shard_entry:
  "SlotEntry (Entries Example_Pool) 0x60000000 =
     Some \<lparr>ComparisonId = 0,
           Header = \<lparr>bIsWide = False, LowercaseProbeHash = 0, Len = 4\<rparr>,
           AnsiName = [0x4E, 0x6F, 0x6E, 0x65], WideName = []\<rparr>"
  by (simp add: SlotEntry_def GetId_def EntryIdMask_def EntryIdBits_def FNameMaxBlockBits_def
      FNameBlockOffsetBits_def Handle_of_Id_def Resolve_def Example_Pool_def)

lemma Example_Shard_slot_ok:
  "slot_ok Example_config IgnoreCase (Entries Example_Pool) 847 0x60000000"
  by (simp add: slot_ok_def Example_Shard_entry MakeView_def IsWide_def GetNameLength_def
      Example_hash_comparison GetProbeHash_def ProbeHashMask_def EntryIdMask_def EntryIdBits_def
      FNameMaxBlockBits_def FNameBlockOffsetBits_def)

lemma Example_Shard_shape: "shard_shape 8 Example_Shard"
proof -
  have "length (filter Used ((replicate 256 0)[171 := 0x60000000 :: uint32]))
      = Suc (length (filter Used (replicate 256 (0 :: uint32))))"
    by (rule filter_update_unused(1)) (simp_all add: Used_def)
  then show ?thesis by (simp add: shard_shape_def Example_Shard_def)
qed

lemma Example_Shard_table:
  "table_inv Example_config IgnoreCase (Entries Example_Pool) 847 (Slots Example_Shard)"
proof -
  have "table_inv Example_config IgnoreCase (Entries Example_Pool) 847
      ((replicate 256 0)[171 := 0x60000000])"
    by (rule table_inv_single)
      (simp_all add: Example_Shard_slot_ok Used_def SlotStart_def Example_Shard_entry
        MakeView_def IsWide_def GetNameLength_def Example_hash_comparison)
  then show ?thesis by (simp add: Example_Shard_def)
qed

theorem Grow_preserves_witness:
  "shard_shape 8 Example_Shard
   \<and> table_inv Example_config IgnoreCase (Entries Example_Pool) 847 (Slots Example_Shard)
   \<and> (\<exists>S'. Grow Example_config IgnoreCase (Entries Example_Pool) Example_Shard = Inr S'
        \<and> shard_shape 9 S'
        \<and> UsedSlots S' = 1
        \<and> set (filter Used (Slots S')) = {0x60000000}
        \<and> Shard_Find IgnoreCase (Entries Example_Pool) S'
             (FNameValue_of Example_config IgnoreCase Example_None) = Inr (GetId 0x60000000)
        \<and> Shard_Find IgnoreCase (Entries Example_Pool) S'
             (FNameValue_of Example_config IgnoreCase Example_None)
           = Shard_Find IgnoreCase (Entries Example_Pool) Example_Shard
               (FNameValue_of Example_config IgnoreCase Example_None))"
proof -
  let ?v = "FNameValue_of Example_config IgnoreCase Example_None"
  have hv: "Hash ?v = HashName Example_config IgnoreCase (Name ?v)"
    by (simp add: FNameValue_of_def)
  have fu: "set (filter Used (Slots Example_Shard)) = {0x60000000}"
  proof -
    have "set (filter Used ((replicate 256 0)[171 := 0x60000000 :: uint32]))
      = insert 0x60000000 (set (filter Used (replicate 256 (0 :: uint32))))"
      by (rule filter_update_unused(2)) (simp_all add: Used_def)
    then show ?thesis by (simp add: Example_Shard_def)
  qed
  have key: "SlotKey IgnoreCase (Entries Example_Pool) 0x60000000
      = Some (KeyOf IgnoreCase (Name ?v))"
    by (simp add: SlotKey_def Example_Shard_entry MakeView_def IsWide_def GetNameLength_def
        KeyOf_def FNameValue_of_def Example_None_def ToLower_def)
  have u: "UsedSlots Example_Shard = 1" by (simp add: Example_Shard_def)
  from Grow_preserves[OF Example_Shard_shape _ Example_Shard_table]
  obtain S' where S': "Grow Example_config IgnoreCase (Entries Example_Pool) Example_Shard = Inr S'"
    "shard_shape (Suc 8) S'" "UsedSlots S' = UsedSlots Example_Shard"
    "set (filter Used (Slots S')) = set (filter Used (Slots Example_Shard))"
    and f: "\<forall>v. Hash v = HashName Example_config IgnoreCase (Name v) \<longrightarrow>
            (\<forall>w \<in> set (filter Used (Slots Example_Shard)).
               SlotKey IgnoreCase (Entries Example_Pool) w = Some (KeyOf IgnoreCase (Name v)) \<longrightarrow>
               Shard_Find IgnoreCase (Entries Example_Pool) S' v = Inr (GetId w))
            \<and> (UsedSlots Example_Shard < 2 ^ 8 \<longrightarrow>
                 Shard_Find IgnoreCase (Entries Example_Pool) S' v
                   = Shard_Find IgnoreCase (Entries Example_Pool) Example_Shard v)"
    by auto
  have mem: "0x60000000 \<in> set (filter Used (Slots Example_Shard))"
    unfolding fu by simp
  have "Shard_Find IgnoreCase (Entries Example_Pool) S' ?v = Inr (GetId 0x60000000)"
    using f[rule_format, OF hv] mem key by blast
  moreover have "Shard_Find IgnoreCase (Entries Example_Pool) S' ?v
      = Shard_Find IgnoreCase (Entries Example_Pool) Example_Shard ?v"
    using f[rule_format, OF hv] u by simp
  moreover have "shard_shape 9 S'" using S'(2) by simp
  ultimately show ?thesis
    using S'(1,3,4) fu u Example_Shard_shape Example_Shard_table by auto
qed

section \<open>The pool and the find-only lookup\<close>
























section \<open>The round trip of a name batch\<close>



































end
